theory Spec2Isabelle
  imports
    Main
    "HOL-Library.Word"
    "HOL-Library.AList"
    "HOL-Library.Multiset"
    "HOL-Library.Char_ord"
    "HOL-Library.List_Lexorder"
begin

section \<open>Effects, errors and the publish/subscribe interface\<close>

text \<open>
  The program talks to one MQTT client \<open>mc\<close>. A \<open>PubSub\<close> is either the stub the
  modules hold before the first connection (\<open>StubPubSub{}\<close>) or a binding
  \<open>MQTT{mc, baseTopic}\<close>; the client is the same everywhere, so only the base topic is
  kept.
\<close>

datatype PubSub = StubPubSub | MQTT string

text \<open>
  What the program does to the outside is recorded as a list of events, oldest first:
  a line written with \<open>log.Print\<close> or \<open>log.Printf\<close>; the calls \<open>mc.Connect()\<close>,
  \<open>mc.Publish(topic, qos, retained, payload)\<close> and \<open>mc.Subscribe(topic, qos,
  handler)\<close> on the client; \<open>time.Sleep(d)\<close>; \<open>time.NewTicker(d)\<close>, a receive from
  the ticker's channel and \<open>t.Stop()\<close>; and the calls on the interfaces:
  \<open>ps.Publish(topic, value)\<close> on a \<open>PubSub\<close>, \<open>s.Sync(ps)\<close> and \<open>s.Publish()\<close> on
  the module registered under a name. \<open>Sleep\<close> carries the configured duration,
  \<open>NewTicker\<close> its period in seconds.
\<close>

datatype event =
    LogPrint string
  | McConnect
  | McPublish string "8 word" bool string
  | McSubscribe string "8 word"
  | Sleep nat
  | NewTicker nat
  | TickerTick
  | TickerStop
  | PsPublish PubSub string string
  | CallSync string PubSub
  | CallPublish string

text \<open>The ways the program stops with \<open>log.Fatalf\<close> or a panic of \<open>MustGet\<close>.\<close>

datatype error =
    UnsupportedSensor string
  | CantFindMac
  | MissingConfig string

definition mustQos :: "8 word" where
  "mustQos = 1"

text \<open>
  \<open>MQTT.Publish\<close> logs and publishes on \<open>baseTopic + topic\<close>, not retained;
  \<open>StubPubSub.Publish\<close> does nothing. The value is given in its \<open>fmt.Sprint\<close> form.
\<close>

fun PubSub_Publish :: "PubSub \<Rightarrow> string \<Rightarrow> string \<Rightarrow> event list" where
  "PubSub_Publish (MQTT baseTopic) topic v =
     [LogPrint (''publish '' @ baseTopic @ topic @ '' '' @ [CHR 0x27] @ v @ [CHR 0x27]),
      McPublish (baseTopic @ topic) mustQos False v]"
| "PubSub_Publish StubPubSub topic v = []"

section \<open>Strings and JSON\<close>

text \<open>\<open>strings.Join(elems, sep)\<close>.\<close>

fun Join :: "string list \<Rightarrow> string \<Rightarrow> string" where
  "Join [] sep = []"
| "Join [x] sep = x"
| "Join (x # y # zs) sep = x @ sep @ Join (y # zs) sep"

text \<open>
  \<open>strings.ReplaceAll(s, old, new)\<close> for a non-empty \<open>old\<close>: the occurrences are
  replaced from the left, without overlap. (The program calls it with the constant
  \<open>{{.NodeId}}\<close>; an empty \<open>old\<close>, which Go treats specially, leaves \<open>s\<close> as it is
  here.)
\<close>

function ReplaceAll :: "string \<Rightarrow> string \<Rightarrow> string \<Rightarrow> string" where
  "ReplaceAll s old new =
     (if s = [] \<or> old = [] then s
      else if take (length old) s = old then new @ ReplaceAll (drop (length old) s) old new
      else hd s # ReplaceAll (tl s) old new)"
  by pat_completeness auto
termination
  by (relation "measure (\<lambda>(s, old, new). length s)") (auto simp: Suc_le_eq)

declare ReplaceAll.simps [simp del]

text \<open>
  The values an entity's configuration holds (\<open>interface{}\<close> in the source): strings,
  slices, and nested maps. A Go map is an association list with distinct keys; the
  lookup is \<open>map_of\<close>, \<open>m[k] = v\<close> is \<open>AList.update k v m\<close>, \<open>delete(m, k)\<close> is
  \<open>AList.delete k m\<close>.
\<close>

datatype jval = JString string | JArray "jval list" | JObject "(string \<times> jval) list"

type_synonym cfgmap = "(string \<times> jval) list"

text \<open>
  \<open>json.Marshal\<close> of such a value, as the standard library writes it: no white space,
  the keys of a map sorted bytewise, strings in double quotes with the double quote and
  the backslash escaped by a backslash, line feed, carriage return and tab as
  \<open>\n\<close>, \<open>\r\<close>, \<open>\t\<close>, the other control characters and \<open><\<close>, \<open>>\<close>, \<open>&\<close> as
  \<open>\u00XX\<close>; every other byte is copied (the strings are taken to be valid UTF-8
  without U+2028 and U+2029; later releases of the library write backspace and form feed
  with a short escape, and no statement below depends on how a character is escaped).
  Marshalling these values cannot fail, so the \<open>log.Fatalf\<close> after \<open>json.Marshal\<close>
  has no branch here.
\<close>

definition hexdigits :: string where
  "hexdigits = ''0123456789abcdef''"

definition json_char :: "char \<Rightarrow> string" where
  "json_char c =
     (if c = CHR 0x22 then [CHR 0x5C, CHR 0x22]
      else if c = CHR 0x5C then [CHR 0x5C, CHR 0x5C]
      else if c = CHR 0x0A then [CHR 0x5C, CHR ''n'']
      else if c = CHR 0x0D then [CHR 0x5C, CHR ''r'']
      else if c = CHR 0x09 then [CHR 0x5C, CHR ''t'']
      else if (of_char c :: nat) < 32 \<or> c = CHR ''<'' \<or> c = CHR ''>'' \<or> c = CHR ''&''
      then [CHR 0x5C, CHR ''u'', CHR ''0'', CHR ''0'',
            hexdigits ! ((of_char c :: nat) div 16), hexdigits ! ((of_char c :: nat) mod 16)]
      else [c])"

definition json_string :: "string \<Rightarrow> string" where
  "json_string s = [CHR 0x22] @ concat (map json_char s) @ [CHR 0x22]"

function json_value :: "jval \<Rightarrow> string" where
  "json_value (JString s) = json_string s"
| "json_value (JArray vs) = ''['' @ Join (map json_value vs) '','' @ '']''"
| "json_value (JObject kvs) =
     ''{'' @ Join (map (\<lambda>kv. json_string (fst kv) @ '':'' @ json_value (snd kv))
                      (sort_key fst kvs)) '','' @ ''}''"
  by pat_completeness auto
termination
proof (relation "measure size")
  show "wf (measure size)" by simp
next
  fix vs :: "jval list" and x
  assume "x \<in> set vs"
  then show "(x, JArray vs) \<in> measure size"
    by (induction vs) auto
next
  fix kvs :: "(string \<times> jval) list" and x
  assume "x \<in> set (sort_key fst kvs)"
  then have "x \<in> set kvs" by simp
  then show "(snd x, JObject kvs) \<in> measure size"
    by (induction kvs) auto
qed

definition Marshal :: "cfgmap \<Rightarrow> string" where
  "Marshal cfg = json_value (JObject cfg)"

section \<open>Normalising an entity's configuration\<close>

definition config_contains :: "cfgmap \<Rightarrow> string \<Rightarrow> bool" where
  "config_contains cfg key = (map_of cfg key \<noteq> None)"

text \<open>
  The loop \<open>for k, v := range baseCfg\<close> of \<open>normalise_config\<close>, visiting the entries
  of \<open>baseCfg\<close> in the order of the list.
\<close>

fun merge_base :: "cfgmap \<Rightarrow> cfgmap \<Rightarrow> cfgmap" where
  "merge_base cfg [] = cfg"
| "merge_base cfg ((k, v) # rest) =
     merge_base (if map_of cfg k = None then AList.update k v cfg else cfg) rest"

text \<open>The two \<open>if\<close> statements that follow the loop.\<close>

definition default_availability :: "cfgmap \<Rightarrow> cfgmap" where
  "default_availability cfg =
     (if \<not> config_contains cfg ''availability_topic'' \<and> \<not> config_contains cfg ''availability''
      then AList.update ''availability_topic'' (JString ''~'') cfg
      else cfg)"

definition drop_self_availability :: "cfgmap \<Rightarrow> cfgmap" where
  "drop_self_availability cfg =
     (if map_of cfg ''state_topic'' = Some (JString ''~'')
      then AList.delete ''availability_topic'' cfg
      else cfg)"

text \<open>
  \<open>normalise_config\<close> writes into the map it is given: the result is the map after the
  call, and the JSON text returned.
\<close>

definition normalise_config :: "cfgmap \<Rightarrow> cfgmap \<Rightarrow> cfgmap \<times> string" where
  "normalise_config cfg baseCfg =
     (let cfg' = drop_self_availability (default_availability (merge_base cfg baseCfg))
      in (cfg', Marshal cfg'))"

section \<open>The modules' discovery entities\<close>

text \<open>
  A Go map is a reference: \<open>EntityConfig.config\<close> names a map, and \<open>normalise_config\<close>
  writes into the map it is given. The maps of the entities therefore live in a store,
  from addresses to the contents of the maps, and an entity holds the address of its
  map. Two entities with the same address share one map. (Every address holds a map: a
  \<open>nil\<close> map, which no \<open>Config\<close> method makes, is not among them.)
\<close>

type_synonym addr = nat

type_synonym store = "addr \<Rightarrow> cfgmap"

record EntityConfig =
  name :: string
  eclass :: string
  config :: addr

text \<open>
  \<open>Dunnart.Config()\<close> makes a new map with a map literal and returns one entity that
  refers to it; \<open>a\<close> is the address at which the new map is allocated.
\<close>

definition Dunnart_Config :: "addr \<Rightarrow> store \<Rightarrow> EntityConfig list \<times> store" where
  "Dunnart_Config a h =
     ([\<lparr>name = ''status'', eclass = ''binary_sensor'', config = a\<rparr>],
      h(a := [(''name'', JString ''status''),
              (''object_id'', JString ''{{.NodeId}}_status''),
              (''state_topic'', JString ''~''),
              (''device_class'', JString ''connectivity''),
              (''payload_on'', JString ''online''),
              (''payload_off'', JString ''offline'')]))"

text \<open>
  The fields of \<open>WAN\<close> that \<open>RefreshLink\<close>, \<open>RefreshIP\<close> and \<open>Config\<close> read and
  write; \<open>entities\<close> lists the names that the map \<open>w.entities\<close> sends to \<open>true\<close>. The
  probes \<open>getLink()\<close> and \<open>getIP()\<close> do network I/O; their result is an argument.
\<close>

record WAN =
  entities :: "string list"
  online :: bool
  ip :: string
  ps :: PubSub




text \<open>
  \<open>WAN.Config()\<close> makes a new map for each of its entities: at \<open>a1\<close> for \<open>link\<close>, at
  \<open>a2\<close> for \<open>ip\<close>.
\<close>

definition WAN_Config :: "WAN \<Rightarrow> addr \<Rightarrow> addr \<Rightarrow> store \<Rightarrow> EntityConfig list \<times> store" where
  "WAN_Config w a1 a2 h =
     (let (es1, h1) =
            (if ''link'' \<in> set (entities w)
             then ([\<lparr>name = ''link'', eclass = ''binary_sensor'', config = a1\<rparr>],
                   h(a1 := [(''name'', JString ''WAN''),
                            (''state_topic'', JString ''~/wan''),
                            (''device_class'', JString ''connectivity''),
                            (''payload_on'', JString ''online''),
                            (''payload_off'', JString ''offline'')]))
             else ([], h));
          (es2, h2) =
            (if ''ip'' \<in> set (entities w)
             then ([\<lparr>name = ''ip'', eclass = ''sensor'', config = a2\<rparr>],
                   h1(a2 := [(''name'', JString ''WAN IP''),
                             (''state_topic'', JString ''~/wan/ip'')]
                            @ (if ''link'' \<in> set (entities w)
                               then [(''availability'',
                                        JArray [JObject [(''topic'', JString ''~'')],
                                                JObject [(''topic'', JString ''~/wan'')]]),
                                     (''availability_mode'', JString ''all'')]
                               else [])))
             else ([], h1))
      in (es1 @ es2, h2))"

section \<open>Building the discovery entries\<close>

text \<open>
  \<open>Discovery.ents\<close>, the map from topic to configuration text, as an association list.
\<close>

record Discovery =
  ents :: "(string \<times> string) list"

text \<open>
  The values \<open>newDiscovery\<close> reads from its configuration: \<open>prefix\<close> (always set:
  \<open>loadConfig\<close> gives it a default), \<open>unique_id\<close> (optional: its default is computed
  from the MAC address) and \<open>node_id\<close> (\<open>MustGet\<close> panics when neither the
  configuration nor the host name gives it).
\<close>

record DiscoveryConfig =
  cfg_prefix :: string
  cfg_unique_id :: "string option"
  cfg_node_id :: "string option"

text \<open>The map literal \<open>baseCfg\<close> as \<open>newDiscovery\<close> first builds it.\<close>

definition baseCfg0 :: "string \<Rightarrow> string \<Rightarrow> string \<Rightarrow> cfgmap" where
  "baseCfg0 baseTopic nodeId mac =
     [(''~'', JString baseTopic),
      (''device'', JObject [(''name'', JString nodeId),
                            (''connections'', JArray [JArray [JString ''mac'', JString mac]])])]"

text \<open>
  The body of the inner loop, for one entity of the module \<open>modName\<close>: from the state
  of \<open>baseCfg\<close>, the store and the entity to the new \<open>baseCfg\<close>, the store in which the
  entity's map is as \<open>normalise_config\<close> leaves it, the topic and the configuration text
  stored under it.
\<close>

definition discover_entity ::
  "string \<Rightarrow> string \<Rightarrow> string \<Rightarrow> string \<Rightarrow> cfgmap \<Rightarrow> store \<Rightarrow> EntityConfig
     \<Rightarrow> cfgmap \<times> store \<times> string \<times> string" where
  "discover_entity prefix uid nodeId modName baseCfg h entity =
     (let euid = uid @ (if length modName > 0 then ''-'' @ modName else []) @ ''-'' @ name entity;
          topic = Join [prefix, eclass entity, euid, ''config''] ''/'';
          baseCfg1 = AList.update ''unique_id'' (JString euid) baseCfg;
          baseCfg2 = AList.update ''object_id''
                       (JString (Join [nodeId, modName, name entity] ''_'')) baseCfg1;
          (cfg', js) = normalise_config (h (config entity)) baseCfg2
      in (baseCfg2, h(config entity := cfg'), topic, ReplaceAll js ''{{.NodeId}}'' nodeId))"

text \<open>The inner loop \<open>for _, entity := range a.Config()\<close>, over a slice.\<close>

fun discover_entities ::
  "string \<Rightarrow> string \<Rightarrow> string \<Rightarrow> string \<Rightarrow> EntityConfig list
     \<Rightarrow> cfgmap \<times> store \<times> (string \<times> string) list
     \<Rightarrow> cfgmap \<times> store \<times> (string \<times> string) list" where
  "discover_entities prefix uid nodeId modName [] st = st"
| "discover_entities prefix uid nodeId modName (entity # rest) (baseCfg, h, ents') =
     (let (baseCfg', h', topic, js) =
            discover_entity prefix uid nodeId modName baseCfg h entity
      in discover_entities prefix uid nodeId modName rest
           (baseCfg', h', AList.update topic js ents'))"

text \<open>
  The outer loop \<open>for modName, s := range ss\<close>. A module is given by what the type
  assertion \<open>s.(Discoverable)\<close> and the call \<open>a.Config()\<close> yield: \<open>None\<close> when it is
  not discoverable, otherwise its entities, whose maps are in the store. The loop visits
  the modules in the order of the list: Go leaves the order of a \<open>range\<close> over a map
  open, so every order of the list is a possible run.
\<close>

fun discover_modules ::
  "string \<Rightarrow> string \<Rightarrow> string \<Rightarrow> (string \<times> EntityConfig list option) list
     \<Rightarrow> cfgmap \<times> store \<times> (string \<times> string) list
     \<Rightarrow> cfgmap \<times> store \<times> (string \<times> string) list" where
  "discover_modules prefix uid nodeId [] st = st"
| "discover_modules prefix uid nodeId ((modName, None) # rest) st =
     discover_modules prefix uid nodeId rest st"
| "discover_modules prefix uid nodeId ((modName, Some entities') # rest) st =
     discover_modules prefix uid nodeId rest
       (discover_entities prefix uid nodeId modName entities' st)"

text \<open>
  The unique id of the device: the configured \<open>unique_id\<close>, or by default \<open>dnrt-\<close>
  and the MAC address without its colons (\<open>strings.Replace(mac, ":", "", -1)\<close>).
\<close>

definition get_uid :: "DiscoveryConfig \<Rightarrow> string \<Rightarrow> string" where
  "get_uid cfg mac =
     (case cfg_unique_id cfg of
        Some u \<Rightarrow> u
      | None \<Rightarrow> ''dnrt-'' @ filter (\<lambda>c. c \<noteq> CHR '':'') mac)"

text \<open>
  \<open>newDiscovery\<close>: \<open>get_mac\<close> is the result of the call \<open>get_mac(cfg)\<close>, which reads
  the interfaces' address files, and \<open>h\<close> the store with the maps of the entities. The
  result is the \<open>Discovery\<close>, and the store as the builder leaves it.
\<close>

definition newDiscovery ::
  "DiscoveryConfig \<Rightarrow> error + string \<Rightarrow> (string \<times> EntityConfig list option) list \<Rightarrow> string
     \<Rightarrow> store \<Rightarrow> error + Discovery \<times> store" where
  "newDiscovery cfg get_mac ss baseTopic h =
     (if length (cfg_prefix cfg) > 0 then
        (case get_mac of
           Inl err \<Rightarrow> Inl err
         | Inr mac \<Rightarrow>
            (let uid = get_uid cfg mac
             in case cfg_node_id cfg of
                  None \<Rightarrow> Inl (MissingConfig ''node_id'')
                | Some nodeId \<Rightarrow>
                   (let (baseCfg, h', ents') =
                          discover_modules (cfg_prefix cfg) uid nodeId ss
                            (baseCfg0 baseTopic nodeId mac, h, [])
                    in Inr (\<lparr>ents = ents'\<rparr>, h'))))
      else Inr (\<lparr>ents = []\<rparr>, h))"

section \<open>The orchestrator: what happens on a connection event\<close>

text \<open>
  \<open>Discovery.advertise\<close>. A \<open>range\<close> over a Go map visits every entry once, in an
  order the language leaves open, and possibly another one at every \<open>range\<close>. The
  functions that range over a map are therefore given the entries in the order in which
  this \<open>range\<close> visits them, here \<open>visit\<close> for \<open>d.ents\<close>; \<open>range_of m visit\<close> says
  that \<open>visit\<close> is such an order for the map \<open>m\<close>.
\<close>

definition range_of :: "('k \<times> 'v) list \<Rightarrow> ('k \<times> 'v) list \<Rightarrow> bool" where
  "range_of m visit \<longleftrightarrow> mset visit = mset m"

fun advertise_loop :: "(string \<times> string) list \<Rightarrow> event list" where
  "advertise_loop [] = []"
| "advertise_loop ((topic, js) # rest) = McPublish topic mustQos False js # advertise_loop rest"

definition advertise :: "(string \<times> string) list \<Rightarrow> event list" where
  "advertise visit = LogPrint ''advertise for ha discovery'' # advertise_loop visit"

text \<open>
  The loop of the connection handler that binds every module: \<open>t := baseTopic\<close>,
  extended by \<open>"/" + modName\<close> when the name is not empty, \<open>ps := MQTT{mc, t}\<close>,
  \<open>s.Sync(ps)\<close>. The modules are behind the interface \<open>Syncer\<close>: the calls are
  recorded, what a module does in them is its own.
\<close>

fun sync_all :: "string \<Rightarrow> (string \<times> 'm) list \<Rightarrow> event list" where
  "sync_all baseTopic [] = []"
| "sync_all baseTopic ((modName, s) # rest) =
     (let t = (if length modName > 0 then baseTopic @ ''/'' @ modName else baseTopic)
      in CallSync modName (MQTT t) # sync_all baseTopic rest)"

text \<open>The loop \<open>for _, s := range ss { s.Publish() }\<close>.\<close>

fun publish_all :: "(string \<times> 'm) list \<Rightarrow> event list" where
  "publish_all [] = []"
| "publish_all ((modName, s) # rest) = CallPublish modName # publish_all rest"

text \<open>
  The orders of the three \<open>range\<close> statements of one connection event: over \<open>d.ents\<close>
  in \<open>advertise\<close>, over \<open>ss\<close> in the loop that calls \<open>Sync\<close>, and over \<open>ss\<close> in the
  loop that calls \<open>Publish\<close>.
\<close>

record 'm visits =
  ents_visit :: "(string \<times> string) list"
  sync_visit :: "(string \<times> 'm) list"
  publish_visit :: "(string \<times> 'm) list"

text \<open>The body of \<open>case <-connect:\<close> in the goroutine of \<open>main\<close>.\<close>

definition on_connect :: "string \<Rightarrow> string \<Rightarrow> nat \<Rightarrow> 'm visits \<Rightarrow> event list" where
  "on_connect baseTopic habmTopic sdelay v =
     [LogPrint ''mqtt connect'']
     @ advertise (ents_visit v)
     @ sync_all baseTopic (sync_visit v)
     @ [McSubscribe habmTopic mustQos]
     @ [Sleep sdelay]
     @ publish_all (publish_visit v)"

text \<open>
  The handler that \<open>on_connect\<close> registers with \<open>mc.Subscribe(habmTopic, ...)\<close>, for a
  message with the given payload; \<open>ev\<close> and \<open>pv\<close> are the orders of its two \<open>range\<close>
  statements.
\<close>

definition on_birth_message ::
  "nat \<Rightarrow> string \<Rightarrow> (string \<times> string) list \<Rightarrow> (string \<times> 'm) list \<Rightarrow> event list" where
  "on_birth_message sdelay payload ev pv =
     (if payload = ''online''
      then advertise ev @ [Sleep sdelay] @ publish_all pv
      else [])"



section \<open>The first connection\<close>





section \<open>Resolving the configured modules\<close>

text \<open>
  The configuration library (\<open>github.com/warthog618/config\<close>) is not part of the
  program. What the program relies on: a \<open>Config\<close> searches a list of getters in order
  and returns the first value found; \<open>Append\<close> adds a getter at the end of the list, so
  that it is consulted last (\<open>loadConfig\<close> appends the configuration file and then the
  defaults, \<open>newWAN\<close> appends the module's defaults); \<open>GetConfig(node)\<close> is the view
  of the keys below \<open>node\<close>, with the separator \<open>.\<close>. Values are kept in their string
  form.
\<close>

type_synonym Getter = "string \<Rightarrow> string option"

type_synonym Config = "Getter list"

fun Get :: "Config \<Rightarrow> string \<Rightarrow> string option" where
  "Get [] k = None"
| "Get (g # gs) k = (case g k of Some v \<Rightarrow> Some v | None \<Rightarrow> Get gs k)"

definition Append :: "Config \<Rightarrow> Getter \<Rightarrow> Config" where
  "Append c g = c @ [g]"

definition GetConfig :: "Config \<Rightarrow> string \<Rightarrow> Config" where
  "GetConfig c node = [\<lambda>k. Get c (node @ ''.'' @ k)]"

definition dict :: "(string \<times> string) list \<Rightarrow> Getter" where
  "dict kvs = map_of kvs"

text \<open>
  \<open>defCfg\<close> of \<open>main\<close>: a dictionary with the global \<open>period\<close> when it is set and not
  empty, \<open>nil\<close> otherwise.
\<close>

definition global_defCfg :: "Config \<Rightarrow> Getter option" where
  "global_defCfg cfg =
     (case Get cfg ''period'' of
        None \<Rightarrow> None
      | Some period \<Rightarrow> if length period > 0 then Some (dict [(''period'', period)]) else None)"

text \<open>The configuration \<open>modCfg\<close> that the loop hands to the factory of \<open>modName\<close>.\<close>

definition module_config :: "Config \<Rightarrow> Getter option \<Rightarrow> string \<Rightarrow> Config" where
  "module_config cfg defCfg modName =
     (let modCfg = GetConfig cfg modName
      in case defCfg of Some d \<Rightarrow> Append modCfg d | None \<Rightarrow> modCfg)"

text \<open>
  The entries of \<open>ss\<close>: the root module \<open>&Dunnart{}\<close> under the empty name, and the
  modules the factories make.
\<close>

datatype 'm Syncer = Dunnart | Module 'm

text \<open>
  The loop \<open>for _, modName := range mm\<close> over the slice of configured names, from the
  registry \<open>moduleFactories\<close>. It returns the map \<open>ss\<close> and the calls of factories it
  made, in order, each with the name and the configuration passed; an unknown name ends
  the program (\<open>log.Fatalf\<close>). The deferred \<open>mod.Close()\<close> of every module runs when
  \<open>main\<close> returns and is not part of the loop's result.
\<close>

fun resolve_modules ::
  "(string \<Rightarrow> (Config \<Rightarrow> 'm) option) \<Rightarrow> Config \<Rightarrow> Getter option \<Rightarrow> string list
     \<Rightarrow> (string \<times> 'm Syncer) list \<times> (string \<times> Config) list
     \<Rightarrow> error + (string \<times> 'm Syncer) list \<times> (string \<times> Config) list" where
  "resolve_modules moduleFactories cfg defCfg [] st = Inr st"
| "resolve_modules moduleFactories cfg defCfg (modName # rest) (ss, calls) =
     (case moduleFactories modName of
        None \<Rightarrow> Inl (UnsupportedSensor modName)
      | Some factory \<Rightarrow>
          (let modCfg = module_config cfg defCfg modName;
               mod' = factory modCfg
           in resolve_modules moduleFactories cfg defCfg rest
                (AList.update modName (Module mod') ss, calls @ [(modName, modCfg)])))"

definition resolve ::
  "(string \<Rightarrow> (Config \<Rightarrow> 'm) option) \<Rightarrow> Config \<Rightarrow> string list
     \<Rightarrow> error + (string \<times> 'm Syncer) list \<times> (string \<times> Config) list" where
  "resolve moduleFactories cfg mm =
     resolve_modules moduleFactories cfg (global_defCfg cfg) mm ([([], Dunnart)], [])"

section \<open>Notions used in the statements\<close>

text \<open>
  What \<open>newDiscovery\<close> computes for one entity \<open>entity\<close> of the module \<open>modName\<close>, each
  as a function of the inputs alone: the unique id, the topic, the base configuration at
  the call of \<open>normalise_config\<close>, and the configuration text stored when the entity's
  map holds \<open>m\<close> at that call.
\<close>

definition entity_euid :: "string \<Rightarrow> string \<Rightarrow> EntityConfig \<Rightarrow> string" where
  "entity_euid uid modName entity =
     (if modName = [] then uid @ ''-'' @ name entity
      else uid @ ''-'' @ modName @ ''-'' @ name entity)"

definition entity_topic :: "string \<Rightarrow> string \<Rightarrow> string \<Rightarrow> EntityConfig \<Rightarrow> string" where
  "entity_topic prefix uid modName entity =
     prefix @ ''/'' @ eclass entity @ ''/'' @ entity_euid uid modName entity @ ''/config''"

definition entity_base ::
  "string \<Rightarrow> string \<Rightarrow> string \<Rightarrow> string \<Rightarrow> string \<Rightarrow> EntityConfig \<Rightarrow> cfgmap" where
  "entity_base baseTopic mac uid nodeId modName entity =
     baseCfg0 baseTopic nodeId mac
     @ [(''unique_id'', JString (entity_euid uid modName entity)),
        (''object_id'', JString (nodeId @ ''_'' @ modName @ ''_'' @ name entity))]"

definition entity_payload ::
  "string \<Rightarrow> string \<Rightarrow> string \<Rightarrow> string \<Rightarrow> string \<Rightarrow> EntityConfig \<Rightarrow> cfgmap \<Rightarrow> string" where
  "entity_payload baseTopic mac uid nodeId modName entity m =
     ReplaceAll
       (snd (normalise_config m (entity_base baseTopic mac uid nodeId modName entity)))
       ''{{.NodeId}}'' nodeId"

text \<open>
  The effect of the loop body on the store and on \<open>ents\<close>, and the effect of the inner
  loop for one module.
\<close>

definition entity_step ::
  "string \<Rightarrow> string \<Rightarrow> string \<Rightarrow> string \<Rightarrow> string \<Rightarrow> string \<Rightarrow> EntityConfig
     \<Rightarrow> store \<times> (string \<times> string) list \<Rightarrow> store \<times> (string \<times> string) list" where
  "entity_step prefix baseTopic mac uid nodeId modName entity st =
     ((fst st)(config entity :=
         fst (normalise_config (fst st (config entity))
                (entity_base baseTopic mac uid nodeId modName entity))),
      AList.update (entity_topic prefix uid modName entity)
        (entity_payload baseTopic mac uid nodeId modName entity (fst st (config entity)))
        (snd st))"

definition module_step ::
  "string \<Rightarrow> string \<Rightarrow> string \<Rightarrow> string \<Rightarrow> string \<Rightarrow> string \<times> EntityConfig list option
     \<Rightarrow> store \<times> (string \<times> string) list \<Rightarrow> store \<times> (string \<times> string) list" where
  "module_step prefix baseTopic mac uid nodeId m st =
     (case snd m of
        None \<Rightarrow> st
      | Some es \<Rightarrow> fold (entity_step prefix baseTopic mac uid nodeId (fst m)) es st)"

text \<open>
  The states \<open>baseCfg\<close> goes through in \<open>newDiscovery\<close>: the literal, or the literal with
  the ids of the entity treated last.
\<close>

definition base_state :: "string \<Rightarrow> string \<Rightarrow> string \<Rightarrow> cfgmap \<Rightarrow> bool" where
  "base_state baseTopic mac nodeId b \<longleftrightarrow>
     b = baseCfg0 baseTopic nodeId mac
     \<or> (\<exists>u v. b = baseCfg0 baseTopic nodeId mac @ [(''unique_id'', u), (''object_id'', v)])"

text \<open>
  The topics of one module, the addresses of the maps of its entities, and the entries
  it stores, in the order in which it stores them, when its entities find their maps as
  they are in the store \<open>h\<close>; \<open>store_all\<close> is the sequence of assignments
  \<open>ents[topic] = config\<close>.
\<close>

definition module_topics ::
  "string \<Rightarrow> string \<Rightarrow> string \<times> EntityConfig list option \<Rightarrow> string list" where
  "module_topics prefix uid m =
     (case snd m of None \<Rightarrow> [] | Some es \<Rightarrow> map (entity_topic prefix uid (fst m)) es)"

definition module_addrs :: "string \<times> EntityConfig list option \<Rightarrow> addr list" where
  "module_addrs m = (case snd m of None \<Rightarrow> [] | Some es \<Rightarrow> map config es)"

definition module_entries ::
  "string \<Rightarrow> string \<Rightarrow> string \<Rightarrow> string \<Rightarrow> string \<Rightarrow> store
     \<Rightarrow> string \<times> EntityConfig list option \<Rightarrow> (string \<times> string) list" where
  "module_entries prefix baseTopic mac uid nodeId h m =
     (case snd m of
        None \<Rightarrow> []
      | Some es \<Rightarrow> map (\<lambda>e. (entity_topic prefix uid (fst m) e,
                              entity_payload baseTopic mac uid nodeId (fst m) e (h (config e)))) es)"

definition store_all ::
  "(string \<times> string) list \<Rightarrow> (string \<times> string) list \<Rightarrow> (string \<times> string) list" where
  "store_all kvs acc = fold (\<lambda>kv. AList.update (fst kv) (snd kv)) kvs acc"

text \<open>
  The mapping from topic to configuration text that a call of \<open>newDiscovery\<close> yields, or
  the error it stops with.
\<close>

definition ents_of :: "error + Discovery \<times> store \<Rightarrow> error + (string \<rightharpoonup> string)" where
  "ents_of r = map_sum id (\<lambda>x. map_of (ents (fst x))) r"

text \<open>
  What the builder does to a map that an entity refers to, from the map \<open>m\<close> before to
  the map \<open>m'\<close> after: every field other than \<open>availability_topic\<close> keeps its value; an
  \<open>availability_topic\<close> keeps its value when \<open>state_topic\<close> is not \<open>~\<close>; there is no
  \<open>availability_topic\<close> when \<open>state_topic\<close> is \<open>~\<close>; and no key appears other than
  those of the base configuration and \<open>availability_topic\<close> (\<open>added_keys\<close>).
\<close>

definition added_keys :: "string set" where
  "added_keys = {''~'', ''device'', ''unique_id'', ''object_id'', ''availability_topic''}"

definition normalised :: "cfgmap \<Rightarrow> cfgmap \<Rightarrow> bool" where
  "normalised m m' \<longleftrightarrow>
     (\<forall>k v. k \<noteq> ''availability_topic'' \<and> map_of m k = Some v \<longrightarrow> map_of m' k = Some v)
     \<and> (\<forall>v. map_of m ''availability_topic'' = Some v
              \<and> map_of m ''state_topic'' \<noteq> Some (JString ''~'')
            \<longrightarrow> map_of m' ''availability_topic'' = Some v)
     \<and> (map_of m ''state_topic'' = Some (JString ''~'')
            \<longrightarrow> map_of m' ''availability_topic'' = None)
     \<and> (\<forall>k. map_of m k = None \<and> k \<notin> added_keys \<longrightarrow> map_of m' k = None)"

text \<open>
  The store \<open>h'\<close> after the builder against the store \<open>h\<close> before it, when \<open>T\<close> are the
  addresses of the maps it has normalised.
\<close>

definition store_normalised :: "addr set \<Rightarrow> store \<Rightarrow> store \<Rightarrow> bool" where
  "store_normalised T h h' \<longleftrightarrow>
     (\<forall>a. (a \<in> T \<longrightarrow> normalised (h a) (h' a)) \<and> (a \<notin> T \<longrightarrow> h' a = h a))"

text \<open>The global period of the configuration, when it is set and not empty.\<close>

definition global_period :: "Config \<Rightarrow> string option" where
  "global_period cfg =
     (case Get cfg ''period'' of
        None \<Rightarrow> None
      | Some period \<Rightarrow> if period = [] then None else Some period)"

section \<open>Example inputs\<close>

text \<open>
  A host \<open>host\<close> with the MAC address \<open>aa:bb\<close>, the default prefix, the root module and
  the module \<open>wan\<close> with both its entities; their three maps are at the addresses 0, 1
  and 2 of the store.
\<close>

definition example_cfg :: DiscoveryConfig where
  "example_cfg =
     \<lparr>cfg_prefix = ''homeassistant'', cfg_unique_id = None, cfg_node_id = Some ''host''\<rparr>"

definition example_wan :: WAN where
  "example_wan = \<lparr>entities = [''link'', ''ip''], online = False, ip = [], ps = StubPubSub\<rparr>"

definition empty_store :: store where
  "empty_store = (\<lambda>a. [])"

definition example_store :: store where
  "example_store = snd (WAN_Config example_wan 1 2 (snd (Dunnart_Config 0 empty_store)))"

definition example_modules :: "(string \<times> EntityConfig list option) list" where
  "example_modules =
     [([], Some (fst (Dunnart_Config 0 empty_store))),
      (''wan'', Some (fst (WAN_Config example_wan 1 2 empty_store)))]"

text \<open>
  Two modules \<open>a\<close> and \<open>a-b\<close> whose entities \<open>b-c\<close> and \<open>c\<close>, each with a map of its
  own, get the same unique id and, being of one class, the same topic.
\<close>

definition clash_modules :: "(string \<times> EntityConfig list option) list" where
  "clash_modules =
     [([], Some (fst (Dunnart_Config 0 empty_store))),
      (''a'', Some [\<lparr>name = ''b-c'', eclass = ''sensor'', config = 1\<rparr>]),
      (''a-b'', Some [\<lparr>name = ''c'', eclass = ''sensor'', config = 2\<rparr>])]"

definition clash_store :: store where
  "clash_store =
     (snd (Dunnart_Config 0 empty_store))
       (1 := [(''name'', JString ''one'')], 2 := [(''name'', JString ''two'')])"

text \<open>
  Two modules \<open>m1\<close> and \<open>m2\<close> with different topics whose entities refer to one and the
  same map, at the address 1.
\<close>

definition shared_modules :: "(string \<times> EntityConfig list option) list" where
  "shared_modules =
     [(''m1'', Some [\<lparr>name = ''e1'', eclass = ''sensor'', config = 1\<rparr>]),
      (''m2'', Some [\<lparr>name = ''e2'', eclass = ''sensor'', config = 1\<rparr>])]"

definition shared_store :: store where
  "shared_store = empty_store(1 := [(''name'', JString ''both'')])"

text \<open>The orders of the ranges of one connection event, for the two modules.\<close>

definition example_visits :: "unit visits" where
  "example_visits =
     \<lparr>ents_visit = [(''homeassistant/sensor/dnrt-aabb-wan-ip/config'', ''{}'')],
      sync_visit = [([], ()), (''wan'', ())],
      publish_visit = [(''wan'', ()), ([], ())]\<rparr>"

text \<open>
  A registry with two names whose factory, like \<open>newWAN\<close>, appends its defaults (a period
  of one hour) and makes a module out of the period it then reads; and a configuration
  with a global period and a period for \<open>cpu\<close>.
\<close>

definition period_factory :: "Config \<Rightarrow> string option" where
  "period_factory c = Get (Append c (dict [(''period'', ''1h'')])) ''period''"

definition example_factories :: "string \<Rightarrow> (Config \<Rightarrow> string option) option" where
  "example_factories n = (if n = ''cpu'' \<or> n = ''mem'' then Some period_factory else None)"

definition example_config :: Config where
  "example_config = [dict [(''period'', ''5m''), (''cpu.period'', ''1m'')]]"

section \<open>Delta publishing\<close>



section \<open>What normalisation keeps, adds and drops\<close>

lemma map_of_merge_base:
  "map_of (merge_base cfg baseCfg) k =
     (case map_of cfg k of Some v \<Rightarrow> Some v | None \<Rightarrow> map_of baseCfg k)"
proof (induction baseCfg arbitrary: cfg)
  case Nil
  then show ?case by (simp split: option.split)
next
  case (Cons kv rest)
  obtain k' v' where kv: "kv = (k', v')" by (cases kv)
  show ?case
    unfolding kv by (simp add: Cons.IH update_conv' split: option.split)
qed

lemma map_of_default_availability:
  "map_of (default_availability m) k =
     (if k = ''availability_topic'' \<and> map_of m ''availability_topic'' = None
           \<and> map_of m ''availability'' = None
      then Some (JString ''~'') else map_of m k)"
  by (simp add: default_availability_def config_contains_def update_conv')

lemma map_of_drop_self_availability:
  "map_of (drop_self_availability m) k =
     (if k = ''availability_topic'' \<and> map_of m ''state_topic'' = Some (JString ''~'')
      then None else map_of m k)"
  by (simp add: drop_self_availability_def delete_conv')

lemma fst_normalise_config:
  "fst (normalise_config cfg baseCfg) =
     drop_self_availability (default_availability (merge_base cfg baseCfg))"
  by (simp add: normalise_config_def Let_def)

lemma map_of_normalise_config:
  "map_of (fst (normalise_config cfg baseCfg)) k =
     (let m = (\<lambda>k. case map_of cfg k of Some v \<Rightarrow> Some v | None \<Rightarrow> map_of baseCfg k) in
      if k = ''availability_topic'' \<and> m ''state_topic'' = Some (JString ''~'') then None
      else if k = ''availability_topic'' \<and> m ''availability_topic'' = None
              \<and> m ''availability'' = None
      then Some (JString ''~'') else m k)"
  by (simp add: fst_normalise_config map_of_drop_self_availability
      map_of_default_availability map_of_merge_base Let_def)

text \<open>
  C9. The merge of the base configuration gives a key of the base to the entity's map
  only when the map does not have it: after the loop every key of the entity's map has
  the value the module set, and the other keys have the value of the base. Hence in the
  map that \<open>normalise_config\<close> leaves, a field the module set keeps its value (for
  \<open>availability_topic\<close>, which the last step may delete: it is never given another
  value).
\<close>

theorem normalise_keeps_explicit_fields:
  "map_of (merge_base cfg baseCfg) k =
     (case map_of cfg k of Some v \<Rightarrow> Some v | None \<Rightarrow> map_of baseCfg k)
   \<and> (map_of cfg k = Some v \<and> k \<noteq> ''availability_topic''
        \<longrightarrow> map_of (fst (normalise_config cfg baseCfg)) k = Some v)
   \<and> (map_of cfg k = Some v
        \<longrightarrow> map_of (fst (normalise_config cfg baseCfg)) k = Some v
            \<or> map_of (fst (normalise_config cfg baseCfg)) k = None)"
  by (auto simp: fst_normalise_config map_of_drop_self_availability
      map_of_default_availability map_of_merge_base split: option.splits)

theorem normalise_keeps_explicit_fields_witness:
  "map_of (merge_base [(''state_topic'', JString ''~/x'')] [(''state_topic'', JString ''~'')])
       ''state_topic'' = Some (JString ''~/x'')
   \<and> map_of (fst (normalise_config [(''state_topic'', JString ''~/x'')]
                    [(''state_topic'', JString ''~'')])) ''state_topic'' = Some (JString ''~/x'')"
  using normalise_keeps_explicit_fields
    [of "[(''state_topic'', JString ''~/x'')]" "[(''state_topic'', JString ''~'')]"
        "''state_topic''" "JString ''~/x''"]
  by simp

text \<open>
  C4. When the entity's map has neither \<open>availability_topic\<close> nor \<open>availability\<close> after
  the merge of the base, \<open>availability_topic\<close> is set to \<open>~\<close>; when its \<open>state_topic\<close>
  is \<open>~\<close>, the map that \<open>normalise_config\<close> leaves has no \<open>availability_topic\<close>,
  whoever set it; when it has neither key and its \<open>state_topic\<close> is not \<open>~\<close>, the
  result has \<open>availability_topic\<close> \<open>~\<close>. In particular the empty map, normalised with a
  base configuration of the builder (the keys \<open>~\<close>, \<open>device\<close>, \<open>unique_id\<close> and
  \<open>object_id\<close>), yields \<open>availability_topic\<close> \<open>~\<close>.
\<close>

theorem normalise_availability:
  "(\<not> config_contains (merge_base cfg baseCfg) ''availability_topic''
      \<and> \<not> config_contains (merge_base cfg baseCfg) ''availability''
      \<longrightarrow> map_of (default_availability (merge_base cfg baseCfg)) ''availability_topic''
            = Some (JString ''~''))
   \<and> (map_of (merge_base cfg baseCfg) ''state_topic'' = Some (JString ''~'')
      \<longrightarrow> map_of (fst (normalise_config cfg baseCfg)) ''availability_topic'' = None)
   \<and> (\<not> config_contains (merge_base cfg baseCfg) ''availability_topic''
      \<and> \<not> config_contains (merge_base cfg baseCfg) ''availability''
      \<and> map_of (merge_base cfg baseCfg) ''state_topic'' \<noteq> Some (JString ''~'')
      \<longrightarrow> map_of (fst (normalise_config cfg baseCfg)) ''availability_topic''
            = Some (JString ''~''))
   \<and> map_of (fst (normalise_config []
                (AList.update ''object_id'' oid
                  (AList.update ''unique_id'' euid (baseCfg0 baseTopic nodeId mac)))))
        ''availability_topic'' = Some (JString ''~'')"
  by (auto simp: fst_normalise_config map_of_drop_self_availability
      map_of_default_availability map_of_merge_base config_contains_def update_conv' baseCfg0_def
      split: option.splits)

theorem normalise_availability_witness:
  "map_of (fst (normalise_config
                  [(''state_topic'', JString ''~''), (''availability_topic'', JString ''x/y'')]
                  [(''~'', JString ''dunnart/host'')])) ''availability_topic'' = None
   \<and> map_of (fst (normalise_config [(''state_topic'', JString ''~/wan/ip'')]
                  [(''~'', JString ''dunnart/host'')])) ''availability_topic''
       = Some (JString ''~'')
   \<and> map_of (fst (normalise_config []
                (AList.update ''object_id'' (JString ''host_wan_ip'')
                  (AList.update ''unique_id'' (JString ''dnrt-aabb-wan-ip'')
                     (baseCfg0 ''dunnart/host'' ''host'' ''aa:bb'')))))
        ''availability_topic'' = Some (JString ''~'')"
proof -
  have 1: "map_of (merge_base
                  [(''state_topic'', JString ''~''), (''availability_topic'', JString ''x/y'')]
                  [(''~'', JString ''dunnart/host'')]) ''state_topic'' = Some (JString ''~'')"
    by (simp add: map_of_merge_base)
  have 2: "\<not> config_contains (merge_base [(''state_topic'', JString ''~/wan/ip'')]
                  [(''~'', JString ''dunnart/host'')]) ''availability_topic''
      \<and> \<not> config_contains (merge_base [(''state_topic'', JString ''~/wan/ip'')]
                  [(''~'', JString ''dunnart/host'')]) ''availability''
      \<and> map_of (merge_base [(''state_topic'', JString ''~/wan/ip'')]
                  [(''~'', JString ''dunnart/host'')]) ''state_topic'' \<noteq> Some (JString ''~'')"
    by (simp add: map_of_merge_base config_contains_def)
  show ?thesis
    using 1 2
      normalise_availability[where
        cfg = "[(''state_topic'', JString ''~''), (''availability_topic'', JString ''x/y'')]"
        and baseCfg = "[(''~'', JString ''dunnart/host'')]"
        and oid = "JString ''host_wan_ip''" and euid = "JString ''dnrt-aabb-wan-ip''"
        and baseTopic = "''dunnart/host''" and nodeId = "''host''" and mac = "''aa:bb''"]
      normalise_availability[where
        cfg = "[(''state_topic'', JString ''~/wan/ip'')]"
        and baseCfg = "[(''~'', JString ''dunnart/host'')]"
        and oid = "JString ''host_wan_ip''" and euid = "JString ''dnrt-aabb-wan-ip''"
        and baseTopic = "''dunnart/host''" and nodeId = "''host''" and mac = "''aa:bb''"]
    by blast
qed

section \<open>The configuration text does not depend on the order of the base's entries\<close>

lemma filter_same_key:
  assumes "distinct (map f xs)" and "k \<in> set xs"
  shows "filter (\<lambda>x. f k = f x) xs = [k]"
  using assms
proof (induction xs)
  case Nil
  then show ?case by simp
next
  case (Cons x xs)
  show ?case
  proof (cases "k = x")
    case True
    have "filter (\<lambda>y. f x = f y) xs = []"
      using Cons.prems(1) by (auto simp: filter_empty_conv)
    then show ?thesis using True by simp
  next
    case False
    then have "k \<in> set xs" using Cons.prems by simp
    moreover from this have "f k \<noteq> f x" using Cons.prems(1) by (auto simp: image_iff)
    ultimately show ?thesis using Cons by simp
  qed
qed

lemma sort_key_mset_eq:
  assumes "mset xs = mset ys" and "distinct (map f xs)"
  shows "sort_key f xs = sort_key f ys"
proof -
  have dy: "distinct (map f ys)"
    using assms by (metis mset_eq_imp_distinct_iff mset_map)
  have ds: "distinct (map f (sort_key f ys))"
    using dy by (metis mset_eq_imp_distinct_iff mset_map mset_sort)
  show ?thesis
  proof (rule properties_for_sort_key)
    show "mset (sort_key f ys) = mset xs" using assms(1) by simp
    show "sorted (map f (sort_key f ys))" by simp
    fix k assume k: "k \<in> set (sort_key f ys)"
    then have "k \<in> set xs" using assms(1) by (metis mset_eq_setD set_sort)
    then have "filter (\<lambda>x. f k = f x) xs = [k]"
      using assms(2) by (intro filter_same_key)
    moreover have "filter (\<lambda>x. f k = f x) (sort_key f ys) = [k]"
      using ds k by (intro filter_same_key)
    ultimately show "filter (\<lambda>x. f k = f x) (sort_key f ys) = filter (\<lambda>x. f k = f x) xs"
      by simp
  qed
qed

lemma Marshal_map_of_eq:
  assumes "distinct (map fst xs)" and "distinct (map fst ys)" and "map_of xs = map_of ys"
  shows "Marshal xs = Marshal ys"
proof -
  have "set xs = set ys" using assms by (simp add: map_of_inject_set)
  moreover have "distinct xs" "distinct ys"
    using assms(1,2) by (simp_all add: distinct_map)
  ultimately have "mset xs = mset ys" by (simp add: set_eq_iff_mset_eq_distinct)
  then have "sort_key fst xs = sort_key fst ys" using assms(1) by (rule sort_key_mset_eq)
  then show ?thesis by (simp add: Marshal_def)
qed

lemma distinct_merge_base:
  "distinct (map fst cfg) \<Longrightarrow> distinct (map fst (merge_base cfg baseCfg))"
proof (induction baseCfg arbitrary: cfg)
  case Nil
  then show ?case by simp
next
  case (Cons kv rest)
  obtain k v where kv: "kv = (k, v)" by (cases kv)
  show ?case unfolding kv using Cons.prems
    by (auto intro!: Cons.IH distinct_update)
qed

lemma distinct_normalise_config:
  "distinct (map fst cfg) \<Longrightarrow> distinct (map fst (fst (normalise_config cfg baseCfg)))"
  by (simp add: fst_normalise_config drop_self_availability_def default_availability_def
      distinct_merge_base distinct_update distinct_delete)

lemma normalise_config_range_order:
  assumes "distinct (map fst cfg)" and "map_of baseCfg' = map_of baseCfg"
  shows "snd (normalise_config cfg baseCfg') = snd (normalise_config cfg baseCfg)"
proof -
  have "map_of (fst (normalise_config cfg baseCfg')) = map_of (fst (normalise_config cfg baseCfg))"
    by (rule ext) (simp only: map_of_normalise_config assms(2))
  then have "Marshal (fst (normalise_config cfg baseCfg'))
               = Marshal (fst (normalise_config cfg baseCfg))"
    using assms(1) by (intro Marshal_map_of_eq distinct_normalise_config)
  then show ?thesis by (simp add: normalise_config_def Let_def)
qed

section \<open>The discovery builder\<close>

lemma base_state_update:
  assumes "base_state baseTopic mac nodeId b"
  shows "AList.update ''object_id'' v (AList.update ''unique_id'' u b)
           = baseCfg0 baseTopic nodeId mac @ [(''unique_id'', u), (''object_id'', v)]"
  using assms unfolding base_state_def baseCfg0_def by auto

lemma base_state_entity_base:
  "base_state baseTopic mac nodeId (entity_base baseTopic mac uid nodeId modName entity)"
  by (auto simp: base_state_def entity_base_def)

lemma base_state_baseCfg0: "base_state baseTopic mac nodeId (baseCfg0 baseTopic nodeId mac)"
  by (simp add: base_state_def)

lemma discover_entity_eq:
  assumes "base_state baseTopic mac nodeId b"
  shows "discover_entity prefix uid nodeId modName b h entity =
           (entity_base baseTopic mac uid nodeId modName entity,
            fst (entity_step prefix baseTopic mac uid nodeId modName entity (h, acc)),
            entity_topic prefix uid modName entity,
            entity_payload baseTopic mac uid nodeId modName entity (h (config entity)))"
proof -
  have j: "Join [nodeId, modName, name entity] ''_''
             = nodeId @ ''_'' @ modName @ ''_'' @ name entity"
    by simp
  have e: "uid @ (if length modName > 0 then ''-'' @ modName else []) @ ''-'' @ name entity
             = entity_euid uid modName entity"
    by (simp add: entity_euid_def)
  show ?thesis
    unfolding discover_entity_def Let_def j e
    by (simp add: base_state_update[OF assms] entity_base_def entity_step_def
        entity_topic_def entity_payload_def split: prod.split)
qed

lemma discover_entity_ids:
  "case discover_entity prefix uid nodeId modName baseCfg h entity of
     (baseCfg', h', topic', js) \<Rightarrow>
       topic' = prefix @ ''/'' @ eclass entity @ ''/'' @ entity_euid uid modName entity @ ''/config''
       \<and> map_of baseCfg' ''unique_id'' = Some (JString (entity_euid uid modName entity))
       \<and> map_of baseCfg' ''object_id''
            = Some (JString (nodeId @ ''_'' @ modName @ ''_'' @ name entity))"
  by (simp add: discover_entity_def Let_def update_conv' entity_euid_def split: prod.split)

lemma discover_entities_eq:
  assumes "base_state baseTopic mac nodeId b"
  shows "\<exists>b'. base_state baseTopic mac nodeId b'
          \<and> discover_entities prefix uid nodeId modName es (b, h, acc) =
              (b', fold (entity_step prefix baseTopic mac uid nodeId modName) es (h, acc))"
  using assms
proof (induction es arbitrary: b h acc)
  case Nil
  then show ?case by simp
next
  case (Cons e es)
  let ?b1 = "entity_base baseTopic mac uid nodeId modName e"
  let ?st1 = "entity_step prefix baseTopic mac uid nodeId modName e (h, acc)"
  have b1: "base_state baseTopic mac nodeId ?b1" by (rule base_state_entity_base)
  from Cons.IH[OF b1, of "fst ?st1" "snd ?st1"]
  obtain b' where b': "base_state baseTopic mac nodeId b'"
    and eq: "discover_entities prefix uid nodeId modName es (?b1, fst ?st1, snd ?st1) =
              (b', fold (entity_step prefix baseTopic mac uid nodeId modName) es ?st1)"
    by auto
  have "discover_entities prefix uid nodeId modName (e # es) (b, h, acc) =
          discover_entities prefix uid nodeId modName es (?b1, fst ?st1, snd ?st1)"
    by (simp add: discover_entity_eq[OF Cons.prems, where acc = acc] entity_step_def)
  then show ?case using b' eq by auto
qed

lemma discover_modules_eq:
  assumes "base_state baseTopic mac nodeId b"
  shows "\<exists>b'. base_state baseTopic mac nodeId b'
          \<and> discover_modules prefix uid nodeId ss (b, h, acc) =
              (b', fold (module_step prefix baseTopic mac uid nodeId) ss (h, acc))"
  using assms
proof (induction ss arbitrary: b h acc)
  case Nil
  then show ?case by simp
next
  case (Cons m ss)
  obtain modName c where m: "m = (modName, c)" by (cases m)
  show ?case
  proof (cases c)
    case None
    from Cons.IH[OF Cons.prems, of h acc] show ?thesis
      by (simp add: m None module_step_def)
  next
    case (Some es)
    let ?st1 = "fold (entity_step prefix baseTopic mac uid nodeId modName) es (h, acc)"
    from discover_entities_eq[OF Cons.prems, of prefix uid modName es h acc]
    obtain b1 where b1: "base_state baseTopic mac nodeId b1"
      and eq1: "discover_entities prefix uid nodeId modName es (b, h, acc) = (b1, ?st1)"
      by blast
    from Cons.IH[OF b1, of "fst ?st1" "snd ?st1"]
    show ?thesis
      by (simp add: m Some eq1 module_step_def)
  qed
qed

lemma newDiscovery_eq:
  assumes "cfg_prefix cfg \<noteq> []" and "cfg_node_id cfg = Some nodeId"
  shows "newDiscovery cfg (Inr mac) ss baseTopic h =
           (let st = fold (module_step (cfg_prefix cfg) baseTopic mac (get_uid cfg mac) nodeId)
                       ss (h, [])
            in Inr (\<lparr>ents = snd st\<rparr>, fst st))"
proof -
  from discover_modules_eq[OF base_state_baseCfg0,
      of baseTopic mac nodeId "cfg_prefix cfg" "get_uid cfg mac" ss h "[]"]
  obtain b' where
    "discover_modules (cfg_prefix cfg) (get_uid cfg mac) nodeId ss
        (baseCfg0 baseTopic nodeId mac, h, []) =
      (b', fold (module_step (cfg_prefix cfg) baseTopic mac (get_uid cfg mac) nodeId) ss (h, []))"
    by blast
  then show ?thesis
    using assms by (simp add: newDiscovery_def Let_def split: prod.split)
qed

text \<open>The topics under which the loops store an entry, whatever the store holds.\<close>

lemma keys_entity_steps:
  "fst ` set (snd (fold (entity_step prefix baseTopic mac uid nodeId modName) es st))
     = fst ` set (snd st) \<union> entity_topic prefix uid modName ` set es"
  by (induction es arbitrary: st) (auto simp: entity_step_def dom_update)

lemma keys_module_steps:
  "fst ` set (snd (fold (module_step prefix baseTopic mac uid nodeId) ss st))
     = fst ` set (snd st) \<union> (\<Union>m \<in> set ss. set (module_topics prefix uid m))"
proof (induction ss arbitrary: st)
  case Nil
  then show ?case by simp
next
  case (Cons m ss)
  have "fst ` set (snd (module_step prefix baseTopic mac uid nodeId m st))
          = fst ` set (snd st) \<union> set (module_topics prefix uid m)"
    by (simp add: module_step_def module_topics_def keys_entity_steps split: option.split)
  then show ?case by (simp add: Cons.IH Un_assoc)
qed

lemma topic_stored:
  assumes "(modName, Some es) \<in> set ss" and "entity \<in> set es"
  shows "map_of (snd (fold (module_step prefix baseTopic mac uid nodeId) ss (h, [])))
           (entity_topic prefix uid modName entity) \<noteq> None"
proof -
  have "entity_topic prefix uid modName entity \<in> set (module_topics prefix uid (modName, Some es))"
    using assms(2) by (simp add: module_topics_def)
  then have "entity_topic prefix uid modName entity
          \<in> fst ` set (snd (fold (module_step prefix baseTopic mac uid nodeId) ss (h, [])))"
    unfolding keys_module_steps using assms(1) by auto
  then show ?thesis by (simp add: map_of_eq_None_iff)
qed

text \<open>
  C3. For an entity of a discoverable module, the loop body of \<open>newDiscovery\<close> computes
  the unique id as the configured uid (by default \<open>dnrt-\<close> and the MAC address without
  colons), then \<open>-\<close> and the module name when that name is not empty, then \<open>-\<close> and the
  entity name; the object id as node id, module name and entity name joined with \<open>_\<close>;
  and the topic as prefix, class, unique id and \<open>config\<close> joined with \<open>/\<close>. The two ids
  are the \<open>unique_id\<close> and \<open>object_id\<close> of the base configuration handed to the
  normalisation, and the builder, which succeeds, has an entry under the topic. This
  holds whatever the maps of the entities hold and whichever entities share a map.
\<close>

theorem discovery_ids:
  fixes cfg :: DiscoveryConfig and entity :: EntityConfig and mac modName :: string
  defines "uid \<equiv> get_uid cfg mac"
  defines "euid \<equiv> (if modName = [] then uid @ ''-'' @ name entity
                   else uid @ ''-'' @ modName @ ''-'' @ name entity)"
  defines "topic \<equiv> cfg_prefix cfg @ ''/'' @ eclass entity @ ''/'' @ euid @ ''/config''"
  assumes "cfg_prefix cfg \<noteq> []" and "cfg_node_id cfg = Some nodeId"
    and "(modName, Some es) \<in> set ss" and "entity \<in> set es"
  shows "(\<forall>baseCfg h.
            case discover_entity (cfg_prefix cfg) uid nodeId modName baseCfg h entity of
              (baseCfg', h', topic', js) \<Rightarrow>
                topic' = topic
                \<and> map_of baseCfg' ''unique_id'' = Some (JString euid)
                \<and> map_of baseCfg' ''object_id''
                     = Some (JString (nodeId @ ''_'' @ modName @ ''_'' @ name entity)))
         \<and> (\<exists>d h'. newDiscovery cfg (Inr mac) ss baseTopic h = Inr (d, h')
                    \<and> map_of (ents d) topic \<noteq> None)"
proof -
  have e: "euid = entity_euid uid modName entity"
    by (simp add: euid_def entity_euid_def)
  have t: "topic = entity_topic (cfg_prefix cfg) uid modName entity"
    by (simp add: topic_def e entity_topic_def)
  have "\<forall>baseCfg h.
            case discover_entity (cfg_prefix cfg) uid nodeId modName baseCfg h entity of
              (baseCfg', h', topic', js) \<Rightarrow>
                topic' = topic
                \<and> map_of baseCfg' ''unique_id'' = Some (JString euid)
                \<and> map_of baseCfg' ''object_id''
                     = Some (JString (nodeId @ ''_'' @ modName @ ''_'' @ name entity))"
    using discover_entity_ids[where prefix = "cfg_prefix cfg" and uid = uid and nodeId = nodeId
        and modName = modName and entity = entity]
    unfolding topic_def e by blast
  moreover have "map_of (snd (fold (module_step (cfg_prefix cfg) baseTopic mac uid nodeId)
                                ss (h, []))) topic \<noteq> None"
    unfolding t using topic_stored[OF assms(6,7)] by simp
  ultimately show ?thesis
    using newDiscovery_eq[OF assms(4,5), of mac ss baseTopic h] unfolding uid_def
    by (auto simp: Let_def)
qed

lemma example_wan_entities:
  "fst (WAN_Config example_wan 1 2 empty_store) =
     [\<lparr>name = ''link'', eclass = ''binary_sensor'', config = 1\<rparr>,
      \<lparr>name = ''ip'', eclass = ''sensor'', config = 2\<rparr>]"
  by (simp add: WAN_Config_def example_wan_def)

theorem discovery_ids_witness:
  "(case discover_entity ''homeassistant'' ''dnrt-aabb'' ''host'' ''wan''
           (baseCfg0 ''dunnart/host'' ''host'' ''aa:bb'') example_store
           \<lparr>name = ''link'', eclass = ''binary_sensor'', config = 1\<rparr> of
      (baseCfg', h', topic', js) \<Rightarrow>
        topic' = ''homeassistant/binary_sensor/dnrt-aabb-wan-link/config''
        \<and> map_of baseCfg' ''unique_id'' = Some (JString ''dnrt-aabb-wan-link'')
        \<and> map_of baseCfg' ''object_id'' = Some (JString ''host_wan_link''))
   \<and> (\<exists>d h'. newDiscovery example_cfg (Inr ''aa:bb'') example_modules ''dunnart/host''
                 example_store = Inr (d, h')
         \<and> map_of (ents d) ''homeassistant/binary_sensor/dnrt-aabb-wan-link/config'' \<noteq> None)"
proof -
  have 1: "cfg_prefix example_cfg \<noteq> []" by (simp add: example_cfg_def)
  have 2: "cfg_node_id example_cfg = Some ''host''" by (simp add: example_cfg_def)
  have 3: "(''wan'', Some (fst (WAN_Config example_wan 1 2 empty_store))) \<in> set example_modules"
    by (simp add: example_modules_def)
  have 4: "\<lparr>name = ''link'', eclass = ''binary_sensor'', config = 1\<rparr>
             \<in> set (fst (WAN_Config example_wan 1 2 empty_store))"
    unfolding example_wan_entities by simp
  have u: "get_uid example_cfg ''aa:bb'' = ''dnrt-aabb''"
    by (simp add: get_uid_def example_cfg_def)
  have p: "cfg_prefix example_cfg = ''homeassistant''" by (simp add: example_cfg_def)
  show ?thesis
    using discovery_ids[OF 1 2 3 4, of "''aa:bb''" "''dunnart/host''" example_store]
    unfolding u p by simp
qed

section \<open>The order of the module map\<close>

lemma store_all_simps [simp]:
  "store_all [] acc = acc"
  "store_all (kv # kvs) acc = store_all kvs (AList.update (fst kv) (snd kv) acc)"
  "store_all (xs @ ys) acc = store_all ys (store_all xs acc)"
  by (simp_all add: store_all_def)

lemma map_of_store_all:
  "map_of (store_all kvs acc) = map_of acc ++ map_of (rev kvs)"
proof (induction kvs arbitrary: acc)
  case Nil
  then show ?case by simp
next
  case (Cons kv kvs)
  obtain k v where kv: "kv = (k, v)" by (cases kv)
  have "map_of (store_all (kv # kvs) acc) = map_of (AList.update k v acc) ++ map_of (rev kvs)"
    by (simp add: kv Cons.IH)
  also have "\<dots> = map_of acc ++ map_of (rev (kv # kvs))"
    by (simp add: kv update_conv' map_add_upd_left fun_eq_iff map_add_def split: option.split)
  finally show ?case .
qed

lemma keys_module_entries:
  "map fst (module_entries prefix baseTopic mac uid nodeId h m) = module_topics prefix uid m"
  by (simp add: module_entries_def module_topics_def split: option.split)

text \<open>The loops write only into the maps of the entities they visit.\<close>

lemma frame_entity_steps:
  assumes "a \<notin> config ` set es"
  shows "fst (fold (entity_step prefix baseTopic mac uid nodeId modName) es st) a = fst st a"
  using assms by (induction es arbitrary: st) (auto simp: entity_step_def)

lemma frame_module_step:
  assumes "a \<notin> set (module_addrs m)"
  shows "fst (module_step prefix baseTopic mac uid nodeId m st) a = fst st a"
  using assms
  by (auto simp: module_step_def module_addrs_def frame_entity_steps split: option.split)

lemma module_entries_cong:
  assumes "\<forall>a \<in> set (module_addrs m). h' a = h a"
  shows "module_entries prefix baseTopic mac uid nodeId h' m
           = module_entries prefix baseTopic mac uid nodeId h m"
  using assms by (auto simp: module_entries_def module_addrs_def split: option.split)

text \<open>
  When every entity has a map of its own, each entity finds its map as it was in the
  store at the start.
\<close>

lemma entity_steps_own_maps:
  assumes "distinct (map config es)"
  shows "snd (fold (entity_step prefix baseTopic mac uid nodeId modName) es (h, acc))
           = store_all (module_entries prefix baseTopic mac uid nodeId h (modName, Some es)) acc"
  using assms
proof (induction es arbitrary: h acc)
  case Nil
  then show ?case by (simp add: module_entries_def)
next
  case (Cons e es)
  let ?h1 = "h(config e := fst (normalise_config (h (config e))
                (entity_base baseTopic mac uid nodeId modName e)))"
  let ?acc1 = "AList.update (entity_topic prefix uid modName e)
                 (entity_payload baseTopic mac uid nodeId modName e (h (config e))) acc"
  have d: "distinct (map config es)" and n: "config e \<notin> config ` set es"
    using Cons.prems by auto
  have c: "module_entries prefix baseTopic mac uid nodeId ?h1 (modName, Some es)
             = module_entries prefix baseTopic mac uid nodeId h (modName, Some es)"
  proof (rule module_entries_cong)
    show "\<forall>a \<in> set (module_addrs (modName, Some es)). ?h1 a = h a"
    proof
      fix a assume "a \<in> set (module_addrs (modName, Some es))"
      then have "a \<in> config ` set es" by (simp add: module_addrs_def)
      then have "a \<noteq> config e" using n by blast
      then show "?h1 a = h a" by simp
    qed
  qed
  have "snd (fold (entity_step prefix baseTopic mac uid nodeId modName) (e # es) (h, acc))
          = snd (fold (entity_step prefix baseTopic mac uid nodeId modName) es (?h1, ?acc1))"
    by (simp add: entity_step_def)
  also have "\<dots> = store_all (module_entries prefix baseTopic mac uid nodeId h (modName, Some es)) ?acc1"
    by (simp only: Cons.IH[OF d] c)
  also have "\<dots> = store_all (module_entries prefix baseTopic mac uid nodeId h (modName, Some (e # es))) acc"
    by (simp add: module_entries_def)
  finally show ?case .
qed

lemma module_step_own_maps:
  assumes "distinct (module_addrs m)"
  shows "snd (module_step prefix baseTopic mac uid nodeId m (h, acc))
           = store_all (module_entries prefix baseTopic mac uid nodeId h m) acc"
proof (cases m)
  case (Pair modName c)
  show ?thesis
  proof (cases c)
    case None
    then show ?thesis by (simp add: Pair module_step_def module_entries_def)
  next
    case (Some es)
    then have "distinct (map config es)" using assms by (simp add: Pair module_addrs_def)
    then show ?thesis
      using entity_steps_own_maps[of es prefix baseTopic mac uid nodeId modName h acc]
      by (simp add: Pair Some module_step_def)
  qed
qed

lemma module_steps_own_maps:
  assumes "distinct (concat (map module_addrs ss))"
  shows "snd (fold (module_step prefix baseTopic mac uid nodeId) ss (h, acc))
           = store_all (concat (map (module_entries prefix baseTopic mac uid nodeId h) ss)) acc"
  using assms
proof (induction ss arbitrary: h acc)
  case Nil
  then show ?case by simp
next
  case (Cons m ss)
  let ?st1 = "module_step prefix baseTopic mac uid nodeId m (h, acc)"
  have dm: "distinct (module_addrs m)" and ds: "distinct (concat (map module_addrs ss))"
    and dj: "set (module_addrs m) \<inter> set (concat (map module_addrs ss)) = {}"
    using Cons.prems by auto
  have s1: "snd ?st1 = store_all (module_entries prefix baseTopic mac uid nodeId h m) acc"
    using dm by (rule module_step_own_maps)
  have "\<forall>m' \<in> set ss. module_entries prefix baseTopic mac uid nodeId (fst ?st1) m'
                         = module_entries prefix baseTopic mac uid nodeId h m'"
  proof
    fix m' assume m': "m' \<in> set ss"
    have "\<forall>a \<in> set (module_addrs m'). fst ?st1 a = h a"
    proof
      fix a assume "a \<in> set (module_addrs m')"
      then have "a \<notin> set (module_addrs m)" using dj m' by auto
      then show "fst ?st1 a = h a" by (simp add: frame_module_step)
    qed
    then show "module_entries prefix baseTopic mac uid nodeId (fst ?st1) m'
                 = module_entries prefix baseTopic mac uid nodeId h m'"
      by (rule module_entries_cong)
  qed
  then have c: "map (module_entries prefix baseTopic mac uid nodeId (fst ?st1)) ss
                  = map (module_entries prefix baseTopic mac uid nodeId h) ss"
    by simp
  have "snd (fold (module_step prefix baseTopic mac uid nodeId) (m # ss) (h, acc))
          = snd (fold (module_step prefix baseTopic mac uid nodeId) ss (fst ?st1, snd ?st1))"
    by simp
  also have "\<dots> = store_all (concat (map (module_entries prefix baseTopic mac uid nodeId h) ss))
                      (snd ?st1)"
    by (simp only: Cons.IH[OF ds] c)
  finally show ?case by (simp add: s1)
qed

lemma mset_concat_map:
  assumes "mset xs = mset ys"
  shows "mset (concat (map f xs)) = mset (concat (map f ys))"
proof -
  have "\<And>zs. mset (concat (map f zs)) = (\<Sum>z\<in>#mset zs. mset (f z))"
    by (induct_tac zs) simp_all
  then show ?thesis using assms by simp
qed

lemma map_of_rev_concat_None:
  assumes "\<forall>blk \<in> set B. t \<notin> fst ` set blk"
  shows "map_of (rev (concat B)) t = None"
  using assms by (induction B) (auto simp: map_add_def map_of_eq_None_iff split: option.split)

lemma map_of_rev_concat_unique:
  assumes "blk \<in> set B" and "\<forall>blk' \<in> set B. blk' \<noteq> blk \<longrightarrow> t \<notin> fst ` set blk'"
  shows "map_of (rev (concat B)) t = map_of (rev blk) t"
  using assms
proof (induction B)
  case Nil
  then show ?case by simp
next
  case (Cons b B)
  have step: "map_of (rev (concat (b # B))) t =
      (case map_of (rev (concat B)) t of None \<Rightarrow> map_of (rev b) t | Some v \<Rightarrow> Some v)"
    by (simp add: map_add_def)
  show ?case
  proof (cases "blk \<in> set B")
    case True
    then have ih: "map_of (rev (concat B)) t = map_of (rev blk) t"
      using Cons by simp
    show ?thesis
    proof (cases "b = blk")
      case True
      then show ?thesis unfolding step ih by (simp split: option.split)
    next
      case False
      then have "t \<notin> fst ` set b" using Cons.prems by simp
      then have "map_of (rev b) t = None" by (simp add: map_of_eq_None_iff)
      then show ?thesis unfolding step ih by (simp split: option.split)
    qed
  next
    case False
    then have b: "b = blk" using Cons.prems by simp
    have "\<forall>blk' \<in> set B. t \<notin> fst ` set blk'"
      using Cons.prems False by auto
    then have "map_of (rev (concat B)) t = None" by (rule map_of_rev_concat_None)
    then show ?thesis by (simp add: b map_add_def)
  qed
qed

lemma map_of_rev_concat_cong:
  assumes "set B' = set B"
    and "\<forall>blk \<in> set B. \<forall>blk' \<in> set B. blk \<noteq> blk' \<longrightarrow> fst ` set blk \<inter> fst ` set blk' = {}"
  shows "map_of (rev (concat B')) = map_of (rev (concat B))"
proof
  fix t
  show "map_of (rev (concat B')) t = map_of (rev (concat B)) t"
  proof (cases "\<exists>blk \<in> set B. t \<in> fst ` set blk")
    case True
    then obtain blk where blk: "blk \<in> set B" "t \<in> fst ` set blk" by blast
    have u: "\<forall>blk' \<in> set B. blk' \<noteq> blk \<longrightarrow> t \<notin> fst ` set blk'"
      using assms(2) blk by blast
    have "map_of (rev (concat B)) t = map_of (rev blk) t"
      using blk(1) u by (rule map_of_rev_concat_unique)
    moreover have "map_of (rev (concat B')) t = map_of (rev blk) t"
      using blk(1) u assms(1) by (intro map_of_rev_concat_unique) simp_all
    ultimately show ?thesis by simp
  next
    case False
    then have "map_of (rev (concat B)) t = None" "map_of (rev (concat B')) t = None"
      using assms(1) by (simp_all add: map_of_rev_concat_None)
    then show ?thesis by simp
  qed
qed

lemma entries_order_independent:
  assumes "set ss' = set ss"
    and "\<forall>m \<in> set ss. \<forall>m' \<in> set ss. m \<noteq> m'
           \<longrightarrow> set (module_topics prefix uid m) \<inter> set (module_topics prefix uid m') = {}"
  shows "map_of (store_all (concat (map (module_entries prefix baseTopic mac uid nodeId h) ss')) [])
       = map_of (store_all (concat (map (module_entries prefix baseTopic mac uid nodeId h) ss)) [])"
proof -
  let ?f = "module_entries prefix baseTopic mac uid nodeId h"
  have k: "\<And>m. fst ` set (?f m) = set (module_topics prefix uid m)"
    by (metis keys_module_entries set_map)
  have "map_of (rev (concat (map ?f ss'))) = map_of (rev (concat (map ?f ss)))"
  proof (rule map_of_rev_concat_cong)
    show "set (map ?f ss') = set (map ?f ss)" using assms(1) by simp
    show "\<forall>blk \<in> set (map ?f ss). \<forall>blk' \<in> set (map ?f ss).
            blk \<noteq> blk' \<longrightarrow> fst ` set blk \<inter> fst ` set blk' = {}"
    proof (intro ballI impI)
      fix blk blk'
      assume "blk \<in> set (map ?f ss)" "blk' \<in> set (map ?f ss)" "blk \<noteq> blk'"
      then obtain m m' where "m \<in> set ss" "m' \<in> set ss" "blk = ?f m" "blk' = ?f m'" "m \<noteq> m'"
        by auto
      then show "fst ` set blk \<inter> fst ` set blk' = {}"
        using assms(2) by (simp add: k)
    qed
  qed
  then show ?thesis by (simp add: map_of_store_all)
qed

lemma map_of_mset_eq:
  assumes "mset b' = mset b" and "distinct (map fst b)"
  shows "map_of b' = map_of b"
proof -
  have "distinct (map fst b')"
    using assms by (metis mset_eq_imp_distinct_iff mset_map)
  moreover have "set b' = set b" using assms(1) by (rule mset_eq_setD)
  ultimately show ?thesis using assms(2) by (simp add: map_of_inject_set)
qed

text \<open>
  C5, as amended. When every entity has a map of its own and no two different modules
  have an entity with the same topic, the mapping from topic to configuration text that
  the builder yields does not depend on the order in which the \<open>range\<close> of
  \<open>newDiscovery\<close> visits the module map; and the text for an entity does not depend on
  the order in which the \<open>range\<close> of \<open>normalise_config\<close> visits the base configuration.
\<close>

theorem discovery_order_independent:
  assumes "mset ss' = mset ss"
    and "distinct (concat (map module_addrs ss))"
    and "\<forall>mac. get_mac = Inr mac \<longrightarrow>
           (\<forall>m \<in> set ss. \<forall>m' \<in> set ss. m \<noteq> m'
              \<longrightarrow> set (module_topics (cfg_prefix cfg) (get_uid cfg mac) m)
                    \<inter> set (module_topics (cfg_prefix cfg) (get_uid cfg mac) m') = {})"
  shows "ents_of (newDiscovery cfg get_mac ss' baseTopic h)
           = ents_of (newDiscovery cfg get_mac ss baseTopic h)
         \<and> (\<forall>m b b'.
               distinct (map fst m) \<and> distinct (map fst b) \<and> mset b' = mset b
               \<longrightarrow> snd (normalise_config m b') = snd (normalise_config m b))"
proof -
  have 1: "ents_of (newDiscovery cfg get_mac ss' baseTopic h)
           = ents_of (newDiscovery cfg get_mac ss baseTopic h)"
  proof (cases "cfg_prefix cfg = []")
    case True
    then show ?thesis by (simp add: newDiscovery_def ents_of_def)
  next
    case False
    note pfx = this
    show ?thesis
    proof (cases get_mac)
      case (Inl err)
      then show ?thesis using pfx by (simp add: newDiscovery_def ents_of_def)
    next
      case (Inr mac)
      show ?thesis
      proof (cases "cfg_node_id cfg")
        case None
        then show ?thesis using pfx Inr by (simp add: newDiscovery_def ents_of_def Let_def)
      next
        case (Some nodeId)
        have s: "set ss' = set ss" using assms(1) by (rule mset_eq_setD)
        have a: "distinct (concat (map module_addrs ss))" by (rule assms(2))
        have "mset (concat (map module_addrs ss')) = mset (concat (map module_addrs ss))"
          using assms(1) by (rule mset_concat_map)
        then have a': "distinct (concat (map module_addrs ss'))"
          using a by (metis mset_eq_imp_distinct_iff)
        have d: "\<forall>m \<in> set ss. \<forall>m' \<in> set ss. m \<noteq> m'
                \<longrightarrow> set (module_topics (cfg_prefix cfg) (get_uid cfg mac) m)
                      \<inter> set (module_topics (cfg_prefix cfg) (get_uid cfg mac) m') = {}"
          using assms(3) Inr by simp
        show ?thesis
          unfolding Inr newDiscovery_eq[OF pfx Some] ents_of_def Let_def
          using entries_order_independent[OF s d]
          by (simp add: module_steps_own_maps[OF a] module_steps_own_maps[OF a'])
      qed
    qed
  qed
  have 2: "\<forall>m b b'.
               distinct (map fst m) \<and> distinct (map fst b) \<and> mset b' = mset b
               \<longrightarrow> snd (normalise_config m b') = snd (normalise_config m b)"
    using normalise_config_range_order map_of_mset_eq by blast
  from 1 2 show ?thesis by blast
qed

lemma example_disjoint:
  "\<forall>m \<in> set example_modules. \<forall>m' \<in> set example_modules. m \<noteq> m'
      \<longrightarrow> set (module_topics (cfg_prefix example_cfg) (get_uid example_cfg ''aa:bb'') m)
            \<inter> set (module_topics (cfg_prefix example_cfg) (get_uid example_cfg ''aa:bb'') m') = {}"
  by code_simp

lemma example_own_maps: "distinct (concat (map module_addrs example_modules))"
  by code_simp

theorem discovery_order_independent_witness:
  "ents_of (newDiscovery example_cfg (Inr ''aa:bb'') (rev example_modules) ''dunnart/host''
              example_store)
     = ents_of (newDiscovery example_cfg (Inr ''aa:bb'') example_modules ''dunnart/host''
                  example_store)"
proof -
  have p: "mset (rev example_modules) = mset example_modules" by simp
  have d: "\<forall>mac. (Inr ''aa:bb'' :: error + string) = Inr mac \<longrightarrow>
           (\<forall>m \<in> set example_modules. \<forall>m' \<in> set example_modules. m \<noteq> m'
              \<longrightarrow> set (module_topics (cfg_prefix example_cfg) (get_uid example_cfg mac) m)
                    \<inter> set (module_topics (cfg_prefix example_cfg) (get_uid example_cfg mac) m') = {})"
    using example_disjoint by simp
  show ?thesis
    using discovery_order_independent[OF p example_own_maps d, of "''dunnart/host''" example_store]
    by blast
qed

text \<open>
  The claim C5 as it stands fails: with the same inputs, two orders of the module map
  give different configuration texts under the topic that the modules \<open>a\<close> and \<open>a-b\<close>
  share (\<open>homeassistant/sensor/dnrt-aabb-a-b-c/config\<close>): the text of the module
  visited last, with the object id \<open>host_a_b-c\<close> or \<open>host_a-b_c\<close>.
\<close>

theorem discovery_order_counterexample:
  "mset (rev clash_modules) = mset clash_modules
   \<and> ents_of (newDiscovery example_cfg (Inr ''aa:bb'') (rev clash_modules) ''dunnart/host''
                clash_store)
     \<noteq> ents_of (newDiscovery example_cfg (Inr ''aa:bb'') clash_modules ''dunnart/host''
                  clash_store)"
proof -
  let ?t = "''homeassistant/sensor/dnrt-aabb-a-b-c/config''"
  let ?l = "newDiscovery example_cfg (Inr ''aa:bb'') (rev clash_modules) ''dunnart/host''
              clash_store"
  let ?r = "newDiscovery example_cfg (Inr ''aa:bb'') clash_modules ''dunnart/host'' clash_store"
  have ne: "map_of (ents (fst (projr ?l))) ?t \<noteq> map_of (ents (fst (projr ?r))) ?t"
    by code_simp
  have p: "cfg_prefix example_cfg \<noteq> []" by (simp add: example_cfg_def)
  have n: "cfg_node_id example_cfg = Some ''host''" by (simp add: example_cfg_def)
  have l: "isl ?l = False" unfolding newDiscovery_eq[OF p n] by (simp add: Let_def)
  have r: "isl ?r = False" unfolding newDiscovery_eq[OF p n] by (simp add: Let_def)
  have "ents_of ?l \<noteq> ents_of ?r"
  proof
    assume eq: "ents_of ?l = ents_of ?r"
    from l obtain x where x: "?l = Inr x" by (cases ?l) auto
    from r obtain y where y: "?r = Inr y" by (cases ?r) auto
    from eq have "map_of (ents (fst x)) = map_of (ents (fst y))"
      unfolding x y ents_of_def by simp
    then show False using ne unfolding x y by simp
  qed
  then show ?thesis by simp
qed

text \<open>
  The proviso on the maps is needed: the modules \<open>m1\<close> and \<open>m2\<close> have different topics
  and share a map, and the text under the topic of \<open>m2\<close> depends on the order of the
  module map: the module visited first leaves its ids in the map, and the other one
  finds them there.
\<close>

lemma shared_map_order_dependent:
  "set (module_topics ''homeassistant'' ''dnrt-aabb'' (shared_modules ! 0))
      \<inter> set (module_topics ''homeassistant'' ''dnrt-aabb'' (shared_modules ! 1)) = {}
   \<and> map_of (ents (fst (projr (newDiscovery example_cfg (Inr ''aa:bb'') (rev shared_modules)
                                   ''dunnart/host'' shared_store))))
        ''homeassistant/sensor/dnrt-aabb-m2-e2/config''
     \<noteq> map_of (ents (fst (projr (newDiscovery example_cfg (Inr ''aa:bb'') shared_modules
                                    ''dunnart/host'' shared_store))))
          ''homeassistant/sensor/dnrt-aabb-m2-e2/config''"
  by code_simp

section \<open>What the builder does to the maps of the entities\<close>

lemma normalised_other:
  "normalised m m' \<Longrightarrow> k \<noteq> ''availability_topic'' \<Longrightarrow> map_of m k = Some v
     \<Longrightarrow> map_of m' k = Some v"
  unfolding normalised_def by blast

lemma normalised_kept:
  "normalised m m' \<Longrightarrow> map_of m ''availability_topic'' = Some v
     \<Longrightarrow> map_of m ''state_topic'' \<noteq> Some (JString ''~'')
     \<Longrightarrow> map_of m' ''availability_topic'' = Some v"
  unfolding normalised_def by blast

lemma normalised_dropped:
  "normalised m m' \<Longrightarrow> map_of m ''state_topic'' = Some (JString ''~'')
     \<Longrightarrow> map_of m' ''availability_topic'' = None"
  unfolding normalised_def by blast

lemma normalised_absent:
  "normalised m m' \<Longrightarrow> map_of m k = None \<Longrightarrow> k \<notin> added_keys \<Longrightarrow> map_of m' k = None"
  unfolding normalised_def by blast

lemma state_topic_not_added: "''state_topic'' \<notin> added_keys"
  by (simp add: added_keys_def)

lemma normalised_normalise_config:
  assumes "\<forall>k. k \<notin> added_keys \<longrightarrow> map_of b k = None"
    and "map_of b ''availability_topic'' = None"
  shows "normalised m (fst (normalise_config m b))"
proof -
  have st: "map_of b ''state_topic'' = None"
    using assms(1) state_topic_not_added by blast
  show ?thesis
    unfolding normalised_def
  proof (intro conjI allI impI)
    fix k v assume "k \<noteq> ''availability_topic'' \<and> map_of m k = Some v"
    then show "map_of (fst (normalise_config m b)) k = Some v"
      by (simp add: map_of_normalise_config Let_def)
  next
    fix v assume "map_of m ''availability_topic'' = Some v
              \<and> map_of m ''state_topic'' \<noteq> Some (JString ''~'')"
    then show "map_of (fst (normalise_config m b)) ''availability_topic'' = Some v"
      by (auto simp: map_of_normalise_config Let_def st split: option.splits)
  next
    assume "map_of m ''state_topic'' = Some (JString ''~'')"
    then show "map_of (fst (normalise_config m b)) ''availability_topic'' = None"
      by (simp add: map_of_normalise_config Let_def)
  next
    fix k assume a: "map_of m k = None \<and> k \<notin> added_keys"
    then have "map_of b k = None" using assms(1) by blast
    moreover have "k \<noteq> ''availability_topic''" using a by (auto simp: added_keys_def)
    ultimately show "map_of (fst (normalise_config m b)) k = None"
      using a by (simp add: map_of_normalise_config Let_def)
  qed
qed

lemma normalised_state_topic:
  assumes "normalised m m'"
  shows "map_of m' ''state_topic'' = map_of m ''state_topic''"
proof (cases "map_of m ''state_topic''")
  case None
  then show ?thesis
    using normalised_absent[OF assms _ state_topic_not_added] by simp
next
  case (Some v)
  then show ?thesis
    using normalised_other[OF assms, of "''state_topic''" v] by simp
qed

lemma normalised_trans:
  assumes "normalised m m'" and "normalised m' m''"
  shows "normalised m m''"
proof -
  have s: "map_of m' ''state_topic'' = map_of m ''state_topic''"
    using assms(1) by (rule normalised_state_topic)
  show ?thesis
    unfolding normalised_def
  proof (intro conjI allI impI)
    fix k v assume a: "k \<noteq> ''availability_topic'' \<and> map_of m k = Some v"
    then have "map_of m' k = Some v"
      using normalised_other[OF assms(1)] by blast
    then show "map_of m'' k = Some v"
      using normalised_other[OF assms(2)] a by blast
  next
    fix v assume a: "map_of m ''availability_topic'' = Some v
              \<and> map_of m ''state_topic'' \<noteq> Some (JString ''~'')"
    then have "map_of m' ''availability_topic'' = Some v"
      using normalised_kept[OF assms(1)] by blast
    moreover have "map_of m' ''state_topic'' \<noteq> Some (JString ''~'')"
      using a s by simp
    ultimately show "map_of m'' ''availability_topic'' = Some v"
      by (rule normalised_kept[OF assms(2)])
  next
    assume "map_of m ''state_topic'' = Some (JString ''~'')"
    then have "map_of m' ''state_topic'' = Some (JString ''~'')" using s by simp
    then show "map_of m'' ''availability_topic'' = None"
      by (rule normalised_dropped[OF assms(2)])
  next
    fix k assume a: "map_of m k = None \<and> k \<notin> added_keys"
    then have "map_of m' k = None"
      using normalised_absent[OF assms(1)] by blast
    then show "map_of m'' k = None"
      using normalised_absent[OF assms(2)] a by blast
  qed
qed

lemma map_of_entity_base_other:
  "\<forall>k. k \<notin> added_keys \<longrightarrow> map_of (entity_base baseTopic mac uid nodeId modName e) k = None"
  by (simp add: entity_base_def baseCfg0_def added_keys_def)

lemma map_of_entity_base_availability:
  "map_of (entity_base baseTopic mac uid nodeId modName e) ''availability_topic'' = None"
  by (simp add: entity_base_def baseCfg0_def)

lemma store_normalised_entity_step:
  assumes "store_normalised T h0 (fst st)"
  shows "store_normalised (insert (config e) T) h0
           (fst (entity_step prefix baseTopic mac uid nodeId modName e st))"
proof -
  let ?n = "fst (normalise_config (fst st (config e))
                   (entity_base baseTopic mac uid nodeId modName e))"
  have n: "normalised (fst st (config e)) ?n"
    using map_of_entity_base_other map_of_entity_base_availability
    by (rule normalised_normalise_config)
  have n0: "normalised (h0 (config e)) ?n"
  proof (cases "config e \<in> T")
    case True
    then have "normalised (h0 (config e)) (fst st (config e))"
      using assms by (simp add: store_normalised_def)
    then show ?thesis using n by (rule normalised_trans)
  next
    case False
    then have "fst st (config e) = h0 (config e)"
      using assms by (simp add: store_normalised_def)
    then show ?thesis using n by simp
  qed
  show ?thesis
    unfolding store_normalised_def
  proof (intro allI conjI impI)
    fix a assume "a \<in> insert (config e) T"
    then show "normalised (h0 a)
                 (fst (entity_step prefix baseTopic mac uid nodeId modName e st) a)"
      using n0 assms by (cases "a = config e") (simp_all add: entity_step_def store_normalised_def)
  next
    fix a assume "a \<notin> insert (config e) T"
    then show "fst (entity_step prefix baseTopic mac uid nodeId modName e st) a = h0 a"
      using assms by (simp add: entity_step_def store_normalised_def)
  qed
qed

lemma store_normalised_entity_steps:
  assumes "store_normalised T h0 (fst st)"
  shows "store_normalised (T \<union> config ` set es) h0
           (fst (fold (entity_step prefix baseTopic mac uid nodeId modName) es st))"
  using assms
proof (induction es arbitrary: T st)
  case Nil
  then show ?case by simp
next
  case (Cons e es)
  have "store_normalised (insert (config e) T \<union> config ` set es) h0
          (fst (fold (entity_step prefix baseTopic mac uid nodeId modName) es
                  (entity_step prefix baseTopic mac uid nodeId modName e st)))"
    by (rule Cons.IH[OF store_normalised_entity_step[OF Cons.prems]])
  then show ?case by simp
qed

lemma store_normalised_module_step:
  assumes "store_normalised T h0 (fst st)"
  shows "store_normalised (T \<union> set (module_addrs m)) h0
             (fst (module_step prefix baseTopic mac uid nodeId m st))"
proof (cases "snd m")
  case None
  then show ?thesis using assms by (simp add: module_step_def module_addrs_def)
next
  case (Some es)
  then show ?thesis
    using store_normalised_entity_steps[OF assms, of es]
    by (simp add: module_step_def module_addrs_def)
qed

lemma store_normalised_module_steps:
  assumes "store_normalised T h0 (fst st)"
  shows "store_normalised (T \<union> set (concat (map module_addrs ss))) h0
           (fst (fold (module_step prefix baseTopic mac uid nodeId) ss st))"
  using assms
proof (induction ss arbitrary: T st)
  case Nil
  then show ?case by simp
next
  case (Cons m ss)
  have "store_normalised ((T \<union> set (module_addrs m)) \<union> set (concat (map module_addrs ss))) h0
          (fst (fold (module_step prefix baseTopic mac uid nodeId) ss
                  (module_step prefix baseTopic mac uid nodeId m st)))"
    by (rule Cons.IH[OF store_normalised_module_step[OF Cons.prems]])
  then show ?case by (simp add: Un_assoc)
qed

text \<open>
  C10, as amended. The builder normalises the maps of the entities in place. After
  \<open>newDiscovery\<close> with a prefix that is not empty, in every map that an entity of a
  discoverable module refers to, every field other than \<open>availability_topic\<close> has the
  value the module set; an \<open>availability_topic\<close> the module set has its value when
  \<open>state_topic\<close> is not \<open>~\<close>, and is removed when \<open>state_topic\<close> is \<open>~\<close>; and the only
  keys added are \<open>~\<close>, \<open>device\<close>, \<open>unique_id\<close>, \<open>object_id\<close> and \<open>availability_topic\<close>.
  Every other map is as it was, and so is every map when the prefix is empty.
\<close>

theorem discovery_normalises_in_place:
  assumes "newDiscovery cfg get_mac ss baseTopic h = Inr (d, h')"
  shows "(cfg_prefix cfg = [] \<longrightarrow> h' = h)
       \<and> (cfg_prefix cfg \<noteq> [] \<longrightarrow>
            (\<forall>a. (a \<in> set (concat (map module_addrs ss)) \<longrightarrow> normalised (h a) (h' a))
                \<and> (a \<notin> set (concat (map module_addrs ss)) \<longrightarrow> h' a = h a)))"
proof (cases "cfg_prefix cfg = []")
  case True
  then show ?thesis using assms by (simp add: newDiscovery_def)
next
  case False
  then obtain mac nodeId where m: "get_mac = Inr mac" and n: "cfg_node_id cfg = Some nodeId"
    using assms by (auto simp: newDiscovery_def Let_def split: sum.splits option.splits)
  have h': "h' = fst (fold (module_step (cfg_prefix cfg) baseTopic mac (get_uid cfg mac) nodeId)
                       ss (h, []))"
    using assms unfolding m newDiscovery_eq[OF False n] by (simp add: Let_def)
  have "store_normalised {} h (fst (h, []))" by (simp add: store_normalised_def)
  then have "store_normalised ({} \<union> set (concat (map module_addrs ss))) h h'"
    unfolding h' by (rule store_normalised_module_steps)
  then show ?thesis using False by (simp add: store_normalised_def)
qed

theorem discovery_normalises_in_place_witness:
  "normalised (example_store 0)
     (snd (projr (newDiscovery example_cfg (Inr ''aa:bb'') example_modules ''dunnart/host''
                    example_store)) 0)
   \<and> normalised (example_store 2)
     (snd (projr (newDiscovery example_cfg (Inr ''aa:bb'') example_modules ''dunnart/host''
                    example_store)) 2)
   \<and> snd (projr (newDiscovery example_cfg (Inr ''aa:bb'') example_modules ''dunnart/host''
                    example_store)) 3 = example_store 3"
proof -
  let ?r = "newDiscovery example_cfg (Inr ''aa:bb'') example_modules ''dunnart/host''
              example_store"
  have p: "cfg_prefix example_cfg \<noteq> []" by (simp add: example_cfg_def)
  have n: "cfg_node_id example_cfg = Some ''host''" by (simp add: example_cfg_def)
  have r: "?r = Inr (fst (projr ?r), snd (projr ?r))"
    unfolding newDiscovery_eq[OF p n] by (simp add: Let_def)
  have q: "\<forall>a. (a \<in> set (concat (map module_addrs example_modules))
                  \<longrightarrow> normalised (example_store a) (snd (projr ?r) a))
              \<and> (a \<notin> set (concat (map module_addrs example_modules))
                  \<longrightarrow> snd (projr ?r) a = example_store a)"
    using discovery_normalises_in_place[OF r] p by blast
  have m0: "0 \<in> set (concat (map module_addrs example_modules))" by code_simp
  have m2: "2 \<in> set (concat (map module_addrs example_modules))" by code_simp
  have n3: "3 \<notin> set (concat (map module_addrs example_modules))" by code_simp
  show ?thesis using q m0 m2 n3 by blast
qed

text \<open>
  The claim C10 as it stands fails: after \<open>newDiscovery\<close> the map of the status entity
  of the root module is not the map that \<open>Dunnart.Config\<close> returned: it has the keys
  \<open>~\<close>, \<open>device\<close>, \<open>unique_id\<close> and \<open>object_id\<close> as well.
\<close>

theorem discovery_mutates_config_counterexample:
  "snd (projr (newDiscovery example_cfg (Inr ''aa:bb'')
                 [([], Some (fst (Dunnart_Config 0 empty_store)))] ''dunnart/host''
                 (snd (Dunnart_Config 0 empty_store)))) 0
     \<noteq> snd (Dunnart_Config 0 empty_store) 0"
  by code_simp

section \<open>The connection handler and the birth message\<close>

lemma advertise_loop_map:
  "advertise_loop visit = map (\<lambda>(topic, js). McPublish topic mustQos False js) visit"
  by (induction visit) auto


lemma publish_all_map:
  "publish_all visit = map (\<lambda>(modName, s). CallPublish modName) visit"
  by (induction visit) auto




text \<open>
  C8. Every connection event subscribes to the birth-message topic. The handler it
  registers, on a message whose payload is \<open>online\<close>, advertises every cached discovery
  entry (\<open>A\<close>), then sleeps for the settle delay, then calls \<open>Publish\<close> once on every
  module of \<open>ss\<close> (\<open>P\<close>); on any other payload it does nothing.
\<close>

theorem on_birth_message_order:
  assumes "range_of ents' ev" and "range_of ss pv"
  shows "McSubscribe habmTopic mustQos \<in> set (on_connect baseTopic habmTopic sdelay v)
         \<and> (\<exists>A P.
           on_birth_message sdelay ''online'' ev pv =
             [LogPrint ''advertise for ha discovery''] @ A @ [Sleep sdelay] @ P
           \<and> mset A = image_mset (\<lambda>(topic, js). McPublish topic mustQos False js) (mset ents')
           \<and> mset P = image_mset (\<lambda>(modName, s). CallPublish modName) (mset ss))
         \<and> (payload \<noteq> ''online'' \<longrightarrow> on_birth_message sdelay payload ev pv = [])"
proof -
  have "McSubscribe habmTopic mustQos \<in> set (on_connect baseTopic habmTopic sdelay v)"
    by (simp add: on_connect_def)
  moreover
  let ?A = "advertise_loop ev"
  let ?P = "publish_all pv"
  have "on_birth_message sdelay ''online'' ev pv =
             [LogPrint ''advertise for ha discovery''] @ ?A @ [Sleep sdelay] @ ?P"
    by (simp add: on_birth_message_def advertise_def)
  moreover have "mset ?A
      = image_mset (\<lambda>(topic, js). McPublish topic mustQos False js) (mset ents')"
    using assms(1) unfolding advertise_loop_map range_of_def mset_map by (rule arg_cong)
  moreover have "mset ?P = image_mset (\<lambda>(modName, s). CallPublish modName) (mset ss)"
    using assms(2) unfolding publish_all_map range_of_def mset_map by (rule arg_cong)
  moreover have "payload \<noteq> ''online'' \<longrightarrow> on_birth_message sdelay payload ev pv = []"
    by (simp add: on_birth_message_def)
  ultimately show ?thesis by blast
qed

theorem on_birth_message_order_witness:
  "on_birth_message 15 ''online'' (ents_visit example_visits) (publish_visit example_visits) =
     [LogPrint ''advertise for ha discovery'',
      McPublish ''homeassistant/sensor/dnrt-aabb-wan-ip/config'' mustQos False ''{}'',
      Sleep 15, CallPublish ''wan'', CallPublish []]
   \<and> on_birth_message 15 ''offline'' (ents_visit example_visits) (publish_visit example_visits)
       = []"
proof -
  have 1: "range_of [(''homeassistant/sensor/dnrt-aabb-wan-ip/config'', ''{}'')]
             (ents_visit example_visits)"
    by (simp add: range_of_def example_visits_def)
  have 2: "range_of [([], ()), (''wan'', ())] (publish_visit example_visits)"
    by (simp add: range_of_def example_visits_def)
  show ?thesis
    using on_birth_message_order[OF 1 2, where sdelay = 15 and payload = "''offline''"]
    by (simp add: on_birth_message_def advertise_def example_visits_def)
qed

section \<open>The first connection: retries and shutdown\<close>






section \<open>The order and the configuration of the resolved modules\<close>

lemma Get_Append: "Get (Append c g) k = (case Get c k of Some v \<Rightarrow> Some v | None \<Rightarrow> g k)"
  unfolding Append_def by (induction c) (auto split: option.splits)

lemma Get_module_config:
  "Get (module_config cfg defCfg modName) k =
     (case Get cfg (modName @ ''.'' @ k) of
        Some v \<Rightarrow> Some v
      | None \<Rightarrow> (case defCfg of Some d \<Rightarrow> d k | None \<Rightarrow> None))"
  by (simp add: module_config_def GetConfig_def Get_Append Let_def split: option.splits)

lemma global_defCfg_lookup:
  "(case global_defCfg cfg of Some d \<Rightarrow> d k | None \<Rightarrow> None) =
     (if k = ''period'' then global_period cfg else None)"
  by (simp add: global_defCfg_def global_period_def dict_def split: option.splits)

lemma resolve_modules_registered:
  assumes "\<forall>n \<in> set mm. moduleFactories n \<noteq> None"
  shows "\<exists>ss'. resolve_modules moduleFactories cfg defCfg mm (ss, calls) =
            Inr (ss', calls @ map (\<lambda>n. (n, module_config cfg defCfg n)) mm)
          \<and> (\<forall>n. map_of ss' n =
                (if n \<in> set mm
                 then map_option (\<lambda>factory. Module (factory (module_config cfg defCfg n)))
                        (moduleFactories n)
                 else map_of ss n))"
  using assms
proof (induction mm arbitrary: ss calls)
  case Nil
  then show ?case by simp
next
  case (Cons m mm)
  then obtain factory where f: "moduleFactories m = Some factory" by auto
  let ?ss1 = "AList.update m (Module (factory (module_config cfg defCfg m))) ss"
  let ?calls1 = "calls @ [(m, module_config cfg defCfg m)]"
  from Cons.IH[of ?ss1 ?calls1] Cons.prems
  obtain ss' where r: "resolve_modules moduleFactories cfg defCfg mm (?ss1, ?calls1) =
            Inr (ss', ?calls1 @ map (\<lambda>n. (n, module_config cfg defCfg n)) mm)"
    and l: "\<forall>n. map_of ss' n =
                (if n \<in> set mm
                 then map_option (\<lambda>factory. Module (factory (module_config cfg defCfg n)))
                        (moduleFactories n)
                 else map_of ?ss1 n)"
    by auto
  show ?case
    using r l f by (auto simp: Let_def update_conv')
qed

lemma resolve_modules_unknown:
  assumes "\<forall>n \<in> set known. moduleFactories n \<noteq> None" and "moduleFactories bad = None"
  shows "resolve_modules moduleFactories cfg defCfg (known @ bad # rest) (ss, calls)
           = Inl (UnsupportedSensor bad)"
  using assms by (induction known arbitrary: ss calls) (auto simp: Let_def)

text \<open>
  C6, as amended. When every listed name is registered, the modules are instantiated
  exactly in the listed order, each by its factory on the configuration of its name,
  and \<open>ss\<close> holds each of them under its name. In that configuration the global period,
  when set and not empty, is a fallback: a key is looked up first in the module's own
  section, then (for \<open>period\<close>) in the global period, and only then in the defaults the
  factory appends.
\<close>

theorem resolve_order_and_precedence:
  assumes "\<forall>n \<in> set mm. moduleFactories n \<noteq> None"
  shows "\<exists>ss calls.
           resolve moduleFactories cfg mm = Inr (ss, calls)
           \<and> calls = map (\<lambda>n. (n, module_config cfg (global_defCfg cfg) n)) mm
           \<and> (\<forall>n \<in> set mm. map_of ss n =
                 map_option (\<lambda>factory. Module (factory (module_config cfg (global_defCfg cfg) n)))
                   (moduleFactories n))
           \<and> (\<forall>n k defaults.
                 Get (Append (module_config cfg (global_defCfg cfg) n) defaults) k =
                   (case Get cfg (n @ ''.'' @ k) of
                      Some v \<Rightarrow> Some v
                    | None \<Rightarrow>
                       (case (if k = ''period'' then global_period cfg else None) of
                          Some p \<Rightarrow> Some p
                        | None \<Rightarrow> defaults k)))"
proof -
  from resolve_modules_registered[OF assms, of cfg "global_defCfg cfg" "[([], Dunnart)]" "[]"]
  obtain ss where "resolve moduleFactories cfg mm =
            Inr (ss, map (\<lambda>n. (n, module_config cfg (global_defCfg cfg) n)) mm)"
    and "\<forall>n \<in> set mm. map_of ss n =
                 map_option (\<lambda>factory. Module (factory (module_config cfg (global_defCfg cfg) n)))
                   (moduleFactories n)"
    by (auto simp: resolve_def)
  moreover have "\<forall>n k defaults.
                 Get (Append (module_config cfg (global_defCfg cfg) n) defaults) k =
                   (case Get cfg (n @ ''.'' @ k) of
                      Some v \<Rightarrow> Some v
                    | None \<Rightarrow>
                       (case (if k = ''period'' then global_period cfg else None) of
                          Some p \<Rightarrow> Some p
                        | None \<Rightarrow> defaults k))"
    by (simp add: Get_Append Get_module_config global_defCfg_lookup split: option.splits)
  ultimately show ?thesis by blast
qed

theorem resolve_order_and_precedence_witness:
  "map fst (snd (projr (resolve example_factories example_config [''mem'', ''cpu''])))
     = [''mem'', ''cpu'']
   \<and> map_of (fst (projr (resolve example_factories example_config [''mem'', ''cpu''])))
        ''mem'' = Some (Module (Some ''5m''))"
proof -
  have h: "\<forall>n \<in> set [''mem'', ''cpu'']. example_factories n \<noteq> None"
    by (simp add: example_factories_def)
  have c: "map_of (fst (projr (resolve example_factories example_config [''mem'', ''cpu''])))
        ''mem'' = Some (Module (Some ''5m''))"
    by code_simp
  show ?thesis
    using resolve_order_and_precedence[OF h, of example_config] c
    by (auto simp: comp_def)
qed

text \<open>
  The claim C6 as it stands fails: with a global period of five minutes and a period of
  one minute in the section of \<open>cpu\<close>, the module \<open>cpu\<close> is made with one minute.
\<close>

theorem resolve_precedence_counterexample:
  "Get example_config ''period'' = Some ''5m''
   \<and> map_of (fst (projr (resolve example_factories example_config [''mem'', ''cpu''])))
        ''cpu'' = Some (Module (Some ''1m''))"
  by code_simp

end
